theory Spec2Isabelle
  imports Complex_Main
begin

section \<open>Floating-point values\<close>

text \<open>
  The program computes with IEEE doubles (Python \<^verbatim>\<open>float\<close>, numpy \<^verbatim>\<open>float64\<close>).
  A double is modelled with its special values kept and its finite values idealised:
  a finite result of an arithmetic operation is the exact real. Rounding is not
  modelled, and neither is the overflow of a product or a sum to an infinity or the
  underflow of a small result to zero. What is proved about computed values is
  therefore stated for inputs whose intermediate results lie in the range of doubles
  (\<open>in_range\<close>, below), where the doubles differ from the exact reals by rounding only;
  nothing that depends on the rounding itself (the order or the spacing of nearby
  doubles) is derived from the model. The one overflow that changes the control flow,
  in Python's \<^verbatim>\<open>**\<close>, is modelled: it raises.
  \<open>Fin 0\<close> is the positive zero and \<open>NegZero\<close> the negative one: the sign of a zero
  decides which infinity a division by it gives.
\<close>

datatype fl = Fin real | NegZero | PosInf | NegInf | NaN

fun fl_finite :: "fl \<Rightarrow> bool" where
  "fl_finite (Fin x) = True"
| "fl_finite NegZero = True"
| "fl_finite PosInf = False"
| "fl_finite NegInf = False"
| "fl_finite NaN = False"

fun fl_val :: "fl \<Rightarrow> real" where
  "fl_val (Fin x) = x"
| "fl_val NegZero = 0"
| "fl_val PosInf = 0"
| "fl_val NegInf = 0"
| "fl_val NaN = 0"

fun fl_isnan :: "fl \<Rightarrow> bool" where
  "fl_isnan NaN = True"
| "fl_isnan (Fin x) = False"
| "fl_isnan NegZero = False"
| "fl_isnan PosInf = False"
| "fl_isnan NegInf = False"

fun fl_isinf :: "fl \<Rightarrow> bool" where
  "fl_isinf PosInf = True"
| "fl_isinf NegInf = True"
| "fl_isinf (Fin x) = False"
| "fl_isinf NegZero = False"
| "fl_isinf NaN = False"

fun fl_iszero :: "fl \<Rightarrow> bool" where
  "fl_iszero (Fin x) = (x = 0)"
| "fl_iszero NegZero = True"
| "fl_iszero PosInf = False"
| "fl_iszero NegInf = False"
| "fl_iszero NaN = False"

text \<open>The sign bit (meaningless for NaN).\<close>

fun fl_signbit :: "fl \<Rightarrow> bool" where
  "fl_signbit (Fin x) = (x < 0)"
| "fl_signbit NegZero = True"
| "fl_signbit PosInf = False"
| "fl_signbit NegInf = True"
| "fl_signbit NaN = False"

definition fl_zero :: "bool \<Rightarrow> fl" where
  "fl_zero neg = (if neg then NegZero else Fin 0)"

definition fl_inf :: "bool \<Rightarrow> fl" where
  "fl_inf neg = (if neg then NegInf else PosInf)"

text \<open>The exact finite result \<open>x\<close>; when it is zero, the operation's rule gives its sign.\<close>

definition fl_exact :: "bool \<Rightarrow> real \<Rightarrow> fl" where
  "fl_exact neg x = (if x = 0 then fl_zero neg else Fin x)"

fun fl_neg :: "fl \<Rightarrow> fl" where
  "fl_neg (Fin x) = (if x = 0 then NegZero else Fin (- x))"
| "fl_neg NegZero = Fin 0"
| "fl_neg PosInf = NegInf"
| "fl_neg NegInf = PosInf"
| "fl_neg NaN = NaN"

text \<open>
  Addition: \<open>inf + (-inf)\<close> is NaN; a zero sum is negative only when both operands are
  negative zeros (round to nearest).
\<close>

definition fl_add :: "fl \<Rightarrow> fl \<Rightarrow> fl" where
  "fl_add a b =
     (if fl_isnan a \<or> fl_isnan b then NaN
      else if fl_isinf a then (if fl_isinf b \<and> fl_signbit a \<noteq> fl_signbit b then NaN else a)
      else if fl_isinf b then b
      else fl_exact (fl_signbit a \<and> fl_signbit b) (fl_val a + fl_val b))"

definition fl_sub :: "fl \<Rightarrow> fl \<Rightarrow> fl" where
  "fl_sub a b = fl_add a (fl_neg b)"

text \<open>Multiplication: \<open>0 * inf\<close> is NaN; the sign is the exclusive or of the signs.\<close>

definition fl_mul :: "fl \<Rightarrow> fl \<Rightarrow> fl" where
  "fl_mul a b =
     (if fl_isnan a \<or> fl_isnan b then NaN
      else if (fl_isinf a \<and> fl_iszero b) \<or> (fl_iszero a \<and> fl_isinf b) then NaN
      else if fl_isinf a \<or> fl_isinf b then fl_inf (fl_signbit a \<noteq> fl_signbit b)
      else fl_exact (fl_signbit a \<noteq> fl_signbit b) (fl_val a * fl_val b))"

text \<open>
  Division as IEEE 754 and numpy have it (a warning, never an exception): \<open>0 / 0\<close> and
  \<open>inf / inf\<close> are NaN, a non-zero value over zero is an infinity.
\<close>

definition fl_div :: "fl \<Rightarrow> fl \<Rightarrow> fl" where
  "fl_div a b =
     (if fl_isnan a \<or> fl_isnan b then NaN
      else if (fl_isinf a \<and> fl_isinf b) \<or> (fl_iszero a \<and> fl_iszero b) then NaN
      else if fl_isinf a \<or> fl_iszero b then fl_inf (fl_signbit a \<noteq> fl_signbit b)
      else if fl_isinf b then fl_zero (fl_signbit a \<noteq> fl_signbit b)
      else fl_exact (fl_signbit a \<noteq> fl_signbit b) (fl_val a / fl_val b))"

text \<open>\<^verbatim>\<open>np.log\<close>: minus infinity at zero, NaN below zero.\<close>

fun fl_log :: "fl \<Rightarrow> fl" where
  "fl_log (Fin x) = (if x = 0 then NegInf else if x < 0 then NaN else Fin (ln x))"
| "fl_log NegZero = NegInf"
| "fl_log PosInf = PosInf"
| "fl_log NegInf = NaN"
| "fl_log NaN = NaN"

text \<open>\<^verbatim>\<open>np.sqrt\<close>: NaN below zero, the negative zero kept.\<close>

fun fl_sqrt :: "fl \<Rightarrow> fl" where
  "fl_sqrt (Fin x) = (if x < 0 then NaN else Fin (sqrt x))"
| "fl_sqrt NegZero = NegZero"
| "fl_sqrt PosInf = PosInf"
| "fl_sqrt NegInf = NaN"
| "fl_sqrt NaN = NaN"

fun fl_exp :: "fl \<Rightarrow> fl" where
  "fl_exp (Fin x) = Fin (exp x)"
| "fl_exp NegZero = Fin 1"
| "fl_exp PosInf = PosInf"
| "fl_exp NegInf = Fin 0"
| "fl_exp NaN = NaN"

text \<open>Comparison \<^verbatim>\<open>a >= b\<close>: false when an operand is NaN; the two zeros are equal.\<close>

fun fl_ge :: "fl \<Rightarrow> fl \<Rightarrow> bool" where
  "fl_ge NaN b = False"
| "fl_ge a NaN = False"
| "fl_ge PosInf b = True"
| "fl_ge a NegInf = True"
| "fl_ge NegInf b = False"
| "fl_ge a PosInf = False"
| "fl_ge a b = (fl_val b \<le> fl_val a)"

text \<open>\<^verbatim>\<open>np.maximum\<close>, which propagates NaN: \<^verbatim>\<open>(a >= b || isnan(a)) ? a : b\<close>.\<close>

definition fl_maximum :: "fl \<Rightarrow> fl \<Rightarrow> fl" where
  "fl_maximum a b = (if fl_ge a b \<or> fl_isnan a then a else b)"

text \<open>
  The range of doubles: \<open>dbl_max\<close> is the largest finite double and \<open>dbl_min\<close> the least
  positive normal one. A real is in range when it is zero or its magnitude lies between
  the two.
\<close>

definition dbl_max :: real where
  "dbl_max = (2 ^ 53 - 1) * 2 ^ 971"

definition dbl_min :: real where
  "dbl_min = 1 / 2 ^ 1022"

definition in_range :: "real \<Rightarrow> bool" where
  "in_range x = (x = 0 \<or> (dbl_min \<le> \<bar>x\<bar> \<and> \<bar>x\<bar> \<le> dbl_max))"

section \<open>The standard normal distribution\<close>

text \<open>
  \<^verbatim>\<open>scipy.stats.norm.cdf\<close> is the standard normal cumulative distribution function
  \<open>Phi x = 1/2 + (1 / sqrt (2 pi)) * integral from 0 to x of exp (- t^2 / 2)\<close>.
  The integral is given by its Maclaurin series, \<open>gauss_int\<close>; that \<open>Phi\<close> is this
  function is shown below: \<open>Phi 0 = 1/2\<close>, the derivative of \<open>Phi\<close> is the density
  \<open>phi\<close>, \<open>Phi (- x) = 1 - Phi x\<close> and \<open>0 \<le> Phi x \<le> 1\<close>.
\<close>

definition gauss_term :: "real \<Rightarrow> nat \<Rightarrow> real" where
  "gauss_term x n = (- 1) ^ n * x ^ (2 * n + 1) / (2 ^ n * fact n * real (2 * n + 1))"

definition gauss_int :: "real \<Rightarrow> real" where
  "gauss_int x = (\<Sum>n. gauss_term x n)"

definition Phi :: "real \<Rightarrow> real" where
  "Phi x = 1 / 2 + gauss_int x / sqrt (2 * pi)"


text \<open>The coefficients of \<open>gauss_int\<close> as a power series in \<open>x\<close>.\<close>

definition gauss_coeff :: "nat \<Rightarrow> real" where
  "gauss_coeff k = (if even k then 0
     else (- 1) ^ ((k - 1) div 2) / (2 ^ ((k - 1) div 2) * fact ((k - 1) div 2) * real k))"

text \<open>
  Two auxiliary functions for the bound \<open>0 \<le> Phi x \<le> 1\<close>: \<open>cos_int m\<close> is the
  antiderivative of \<open>cos ^ m\<close> that vanishes at \<open>0\<close>, and \<open>wallis m\<close> is its value at
  \<open>pi / 2\<close>.
\<close>

fun cos_int :: "nat \<Rightarrow> real \<Rightarrow> real" where
  "cos_int 0 x = x"
| "cos_int (Suc 0) x = sin x"
| "cos_int (Suc (Suc m)) x =
     (real (Suc m) * cos_int m x + cos x ^ Suc m * sin x) / real (Suc (Suc m))"

fun wallis :: "nat \<Rightarrow> real" where
  "wallis 0 = pi / 2"
| "wallis (Suc 0) = 1"
| "wallis (Suc (Suc m)) = real (Suc m) / real (Suc (Suc m)) * wallis m"

fun fl_cdf :: "fl \<Rightarrow> fl" where
  "fl_cdf (Fin x) = Fin (Phi x)"
| "fl_cdf NegZero = Fin (Phi 0)"
| "fl_cdf PosInf = Fin 1"
| "fl_cdf NegInf = Fin 0"
| "fl_cdf NaN = NaN"

section \<open>Python values, exceptions and operators\<close>

text \<open>
  The values that reach the pricing code: \<^verbatim>\<open>None\<close> (the current price when no stock
  data came back), a Python \<^verbatim>\<open>float\<close>, or a numpy scalar. An operation with a numpy
  operand is numpy's and gives a numpy scalar.
\<close>

datatype pyval = PyNone | PyFloat fl | NpFloat fl

datatype exn = TypeError | ZeroDivisionError | OverflowError

text \<open>All three are subclasses of \<^verbatim>\<open>Exception\<close>, which is what the handler catches.\<close>

fun is_Exception :: "exn \<Rightarrow> bool" where
  "is_Exception TypeError = True"
| "is_Exception ZeroDivisionError = True"
| "is_Exception OverflowError = True"

type_synonym 'a result = "exn + 'a"

fun py_binop :: "(fl \<Rightarrow> fl \<Rightarrow> fl) \<Rightarrow> pyval \<Rightarrow> pyval \<Rightarrow> pyval result" where
  "py_binop f (PyFloat a) (PyFloat b) = Inr (PyFloat (f a b))"
| "py_binop f (PyFloat a) (NpFloat b) = Inr (NpFloat (f a b))"
| "py_binop f (NpFloat a) (PyFloat b) = Inr (NpFloat (f a b))"
| "py_binop f (NpFloat a) (NpFloat b) = Inr (NpFloat (f a b))"
| "py_binop f PyNone b = Inl TypeError"
| "py_binop f a PyNone = Inl TypeError"

text \<open>
  \<^verbatim>\<open>a / b\<close>: between two Python floats a zero divisor raises; numpy divides as IEEE does.
\<close>

fun truediv :: "pyval \<Rightarrow> pyval \<Rightarrow> pyval result" where
  "truediv (PyFloat a) (PyFloat b) =
     (if fl_iszero b then Inl ZeroDivisionError else Inr (PyFloat (fl_div a b)))"
| "truediv a b = py_binop fl_div a b"

fun py_unop :: "(fl \<Rightarrow> fl) \<Rightarrow> pyval \<Rightarrow> pyval result" where
  "py_unop f PyNone = Inl TypeError"
| "py_unop f (PyFloat a) = Inr (PyFloat (f a))"
| "py_unop f (NpFloat a) = Inr (NpFloat (f a))"

text \<open>A numpy or scipy function of one argument: the result is a numpy scalar.\<close>

fun np_ufunc :: "(fl \<Rightarrow> fl) \<Rightarrow> pyval \<Rightarrow> pyval result" where
  "np_ufunc f PyNone = Inl TypeError"
| "np_ufunc f (PyFloat a) = Inr (NpFloat (f a))"
| "np_ufunc f (NpFloat a) = Inr (NpFloat (f a))"

text \<open>
  Expressions: the operands are evaluated left to right, and the first exception raised
  leaves the expression.
\<close>

definition lift1 :: "(pyval \<Rightarrow> pyval result) \<Rightarrow> pyval result \<Rightarrow> pyval result" where
  "lift1 f a = (case a of Inl e \<Rightarrow> Inl e | Inr x \<Rightarrow> f x)"

definition lift2 ::
  "(pyval \<Rightarrow> pyval \<Rightarrow> pyval result) \<Rightarrow> pyval result \<Rightarrow> pyval result \<Rightarrow> pyval result" where
  "lift2 f a b =
     (case a of Inl e \<Rightarrow> Inl e
      | Inr x \<Rightarrow> (case b of Inl e \<Rightarrow> Inl e | Inr y \<Rightarrow> f x y))"

definition var :: "pyval \<Rightarrow> pyval result" where
  "var v = Inr v"

definition lit :: "real \<Rightarrow> pyval result" where
  "lit x = Inr (PyFloat (Fin x))"

definition py_add :: "pyval result \<Rightarrow> pyval result \<Rightarrow> pyval result" where
  "py_add = lift2 (py_binop fl_add)"

definition py_sub :: "pyval result \<Rightarrow> pyval result \<Rightarrow> pyval result" where
  "py_sub = lift2 (py_binop fl_sub)"

definition py_mul :: "pyval result \<Rightarrow> pyval result \<Rightarrow> pyval result" where
  "py_mul = lift2 (py_binop fl_mul)"

definition py_truediv :: "pyval result \<Rightarrow> pyval result \<Rightarrow> pyval result" where
  "py_truediv = lift2 truediv"

definition py_neg :: "pyval result \<Rightarrow> pyval result" where
  "py_neg = lift1 (py_unop fl_neg)"

text \<open>
  \<^verbatim>\<open>x ** 2\<close>: the square, never negative, \<open>+0\<close> at both zeros and \<open>+inf\<close> at both
  infinities. For a finite Python float whose square exceeds the largest double,
  Python's power raises \<^verbatim>\<open>OverflowError\<close>; numpy's power does not raise.
\<close>

fun pow2 :: "pyval \<Rightarrow> pyval result" where
  "pow2 PyNone = Inl TypeError"
| "pow2 (PyFloat (Fin x)) =
     (if dbl_max < x\<^sup>2 then Inl OverflowError else Inr (PyFloat (fl_mul (Fin x) (Fin x))))"
| "pow2 (PyFloat a) = Inr (PyFloat (fl_mul a a))"
| "pow2 (NpFloat a) = Inr (NpFloat (fl_mul a a))"

definition py_pow2 :: "pyval result \<Rightarrow> pyval result" where
  "py_pow2 = lift1 pow2"

definition np_log :: "pyval result \<Rightarrow> pyval result" where
  "np_log = lift1 (np_ufunc fl_log)"

definition np_sqrt :: "pyval result \<Rightarrow> pyval result" where
  "np_sqrt = lift1 (np_ufunc fl_sqrt)"

definition np_exp :: "pyval result \<Rightarrow> pyval result" where
  "np_exp = lift1 (np_ufunc fl_exp)"

definition norm_cdf :: "pyval result \<Rightarrow> pyval result" where
  "norm_cdf = lift1 (np_ufunc fl_cdf)"

section \<open>The user interface\<close>

text \<open>
  The Streamlit calls the pricing code makes, in order: the state the code changes.
  \<open>St_error_black_scholes e\<close> is
  \<^verbatim>\<open>st.error(f"Error in Black-Scholes calculation: {e}")\<close>, \<open>St_error_expiration\<close> is
  \<^verbatim>\<open>st.error("Expiration date must be in the future.")\<close>, and \<open>St_write_price p\<close> is the
  \<^verbatim>\<open>st.write\<close> of the Black-Scholes price.
\<close>

datatype st_call = St_error_black_scholes exn | St_error_expiration | St_write_price pyval

type_synonym ui = "st_call list"

section \<open>The pricing function\<close>

text \<open>The body of the \<^verbatim>\<open>try\<close> block of \<^verbatim>\<open>black_scholes\<close>.\<close>

definition bs_d1 :: "pyval \<Rightarrow> pyval \<Rightarrow> pyval \<Rightarrow> pyval \<Rightarrow> pyval \<Rightarrow> pyval result" where
  "bs_d1 S K T r sigma =
     py_truediv
       (py_add (np_log (py_truediv (var S) (var K)))
               (py_mul (py_add (var r) (py_mul (lit 0.5) (py_pow2 (var sigma)))) (var T)))
       (py_mul (var sigma) (np_sqrt (var T)))"

definition bs_d2 :: "pyval \<Rightarrow> pyval \<Rightarrow> pyval \<Rightarrow> pyval result" where
  "bs_d2 d1 T sigma = py_sub (var d1) (py_mul (var sigma) (np_sqrt (var T)))"

definition bs_price ::
  "pyval \<Rightarrow> pyval \<Rightarrow> pyval \<Rightarrow> pyval \<Rightarrow> pyval \<Rightarrow> pyval \<Rightarrow> string \<Rightarrow> pyval result" where
  "bs_price S K T r d1 d2 option_type =
     (if option_type = ''call''
      then py_sub (py_mul (var S) (norm_cdf (var d1)))
                  (py_mul (py_mul (var K) (np_exp (py_mul (py_neg (var r)) (var T))))
                          (norm_cdf (var d2)))
      else py_sub (py_mul (py_mul (var K) (np_exp (py_mul (py_neg (var r)) (var T))))
                          (norm_cdf (py_neg (var d2))))
                  (py_mul (var S) (norm_cdf (py_neg (var d1)))))"

definition black_scholes_try ::
  "pyval \<Rightarrow> pyval \<Rightarrow> pyval \<Rightarrow> pyval \<Rightarrow> pyval \<Rightarrow> string \<Rightarrow> pyval result" where
  "black_scholes_try S K T r sigma option_type =
     (case bs_d1 S K T r sigma of
        Inl e \<Rightarrow> Inl e
      | Inr d1 \<Rightarrow>
          (case bs_d2 d1 T sigma of
             Inl e \<Rightarrow> Inl e
           | Inr d2 \<Rightarrow> bs_price S K T r d1 d2 option_type))"

text \<open>
  \<^verbatim>\<open>black_scholes\<close>: the \<^verbatim>\<open>try\<close> block, and the handler \<^verbatim>\<open>except Exception as e\<close>, which
  reports the exception with \<^verbatim>\<open>st.error\<close> and returns \<^verbatim>\<open>np.nan\<close> (a Python float).
  The result is the value returned or the exception that leaves the function, with the
  user interface after the call.
\<close>

definition black_scholes ::
  "pyval \<Rightarrow> pyval \<Rightarrow> pyval \<Rightarrow> pyval \<Rightarrow> pyval \<Rightarrow> string \<Rightarrow> ui \<Rightarrow> pyval result \<times> ui" where
  "black_scholes S K T r sigma option_type u =
     (case black_scholes_try S K T r sigma option_type of
        Inr price \<Rightarrow> (Inr price, u)
      | Inl e \<Rightarrow>
          (if is_Exception e then (Inr (PyFloat NaN), u @ [St_error_black_scholes e])
           else (Inl e, u)))"

section \<open>The pricing section of the page\<close>

text \<open>
  Lines 146 to 151. \<^verbatim>\<open>(expiration_date - today).days\<close> is an integer, the only thing the
  code keeps of the clock; \<open>days\<close> stands for it. \<^verbatim>\<open>T = days / 365\<close>, and a \<open>T\<close> that is
  not positive is reported and replaced by \<open>0.01\<close>.
\<close>

definition time_to_expiration :: "int \<Rightarrow> ui \<Rightarrow> pyval \<times> ui" where
  "time_to_expiration days u =
     (let T = real_of_int days / 365
      in if T \<le> 0 then (PyFloat (Fin 0.01), u @ [St_error_expiration])
         else (PyFloat (Fin T), u))"

text \<open>
  Lines 146 to 155: the time to expiration, the call of \<^verbatim>\<open>black_scholes\<close> and the
  \<^verbatim>\<open>st.write\<close> of the price. The result is the price shown, or the exception that
  ends the script.
\<close>

definition price_section ::
  "pyval \<Rightarrow> pyval \<Rightarrow> int \<Rightarrow> pyval \<Rightarrow> pyval \<Rightarrow> string \<Rightarrow> ui \<Rightarrow> pyval result \<times> ui" where
  "price_section current_price strike days risk_free_rate volatility option_type u =
     (case time_to_expiration days u of
        (T, u1) \<Rightarrow>
          (case black_scholes current_price strike T risk_free_rate volatility option_type u1 of
             (Inl e, u2) \<Rightarrow> (Inl e, u2)
           | (Inr price, u2) \<Rightarrow> (Inr price, u2 @ [St_write_price price])))"

section \<open>The payoff diagram\<close>

text \<open>
  \<^verbatim>\<open>np.linspace(start, stop, num)\<close> with its default \<^verbatim>\<open>endpoint=True\<close>, as numpy computes
  it: \<open>num\<close> samples \<open>i * step + start\<close> with \<open>step = (stop - start) / (num - 1)\<close>, the last
  one overwritten by \<open>stop\<close> when there are at least two. With one sample the step is
  undefined and the sample is \<open>start\<close>. The samples of the model are exact reals,
  numpy's are rounded doubles: how many samples there are carries over to the program,
  their order and their spacing need not (nearby doubles can coincide), and nothing
  below depends on either.
\<close>

definition linspace :: "fl \<Rightarrow> fl \<Rightarrow> nat \<Rightarrow> fl list" where
  "linspace start stop num =
     (let divisor = num - 1;
          delta = fl_sub stop start;
          idx = map (\<lambda>i. Fin (real i)) [0..<num];
          y = (if 0 < divisor then
                 (let step = fl_div delta (Fin (real divisor))
                  in if fl_iszero step
                     then map (\<lambda>i. fl_mul (fl_div i (Fin (real divisor))) delta) idx
                     else map (\<lambda>i. fl_mul i step) idx)
               else map (\<lambda>i. fl_mul i delta) idx);
          y' = map (\<lambda>v. fl_add v start) y
      in if 1 < num then y'[num - 1 := stop] else y')"

fun as_float :: "pyval \<Rightarrow> fl result" where
  "as_float PyNone = Inl TypeError"
| "as_float (PyFloat a) = Inr a"
| "as_float (NpFloat a) = Inr a"

text \<open>
  Lines 161 to 164 at one sample \<open>s\<close> of the grid:
  \<^verbatim>\<open>np.maximum(S - strike, 0) - bs_price\<close> for a call, and
  \<^verbatim>\<open>np.maximum(strike - S, 0) - bs_price\<close> otherwise.
\<close>

definition payoff_at :: "string \<Rightarrow> fl \<Rightarrow> fl \<Rightarrow> fl \<Rightarrow> fl" where
  "payoff_at option_type strike price s =
     (if option_type = ''call''
      then fl_sub (fl_maximum (fl_sub s strike) (Fin 0)) price
      else fl_sub (fl_maximum (fl_sub strike s) (Fin 0)) price)"

text \<open>
  Lines 160 to 164, with the bounds of the grid and the number of samples as arguments:
  the points \<open>(S, payoff)\<close> that are plotted.
\<close>

definition payoff_curve ::
  "pyval \<Rightarrow> pyval \<Rightarrow> string \<Rightarrow> pyval \<Rightarrow> pyval \<Rightarrow> nat \<Rightarrow> (fl \<times> fl) list result" where
  "payoff_curve strike price option_type low high num =
     (case as_float low of Inl e \<Rightarrow> Inl e | Inr lo \<Rightarrow>
      (case as_float high of Inl e \<Rightarrow> Inl e | Inr hi \<Rightarrow>
       (case as_float strike of Inl e \<Rightarrow> Inl e | Inr k \<Rightarrow>
        (case as_float price of Inl e \<Rightarrow> Inl e | Inr p \<Rightarrow>
           Inr (map (\<lambda>s. (s, payoff_at option_type k p s)) (linspace lo hi num))))))"

text \<open>
  The program's own call: the grid runs from half the current price to one and a half
  times the current price, in 100 samples.
\<close>

definition payoff_diagram :: "pyval \<Rightarrow> pyval \<Rightarrow> pyval \<Rightarrow> string \<Rightarrow> (fl \<times> fl) list result" where
  "payoff_diagram current_price strike price option_type =
     (case py_mul (var current_price) (lit 0.5) of Inl e \<Rightarrow> Inl e | Inr low \<Rightarrow>
      (case py_mul (var current_price) (lit 1.5) of Inl e \<Rightarrow> Inl e | Inr high \<Rightarrow>
         payoff_curve strike price option_type low high 100))"

section \<open>The closed form of the specification\<close>

text \<open>
  The Black-Scholes value as the specification writes it, over the reals, to compare
  the code with.
\<close>

definition spec_d1 :: "real \<Rightarrow> real \<Rightarrow> real \<Rightarrow> real \<Rightarrow> real \<Rightarrow> real" where
  "spec_d1 S K T r sigma = (ln (S / K) + (r + sigma\<^sup>2 / 2) * T) / (sigma * sqrt T)"

definition spec_d2 :: "real \<Rightarrow> real \<Rightarrow> real \<Rightarrow> real \<Rightarrow> real \<Rightarrow> real" where
  "spec_d2 S K T r sigma = spec_d1 S K T r sigma - sigma * sqrt T"

definition spec_call :: "real \<Rightarrow> real \<Rightarrow> real \<Rightarrow> real \<Rightarrow> real \<Rightarrow> real" where
  "spec_call S K T r sigma =
     S * Phi (spec_d1 S K T r sigma) - K * exp (- r * T) * Phi (spec_d2 S K T r sigma)"

definition spec_put :: "real \<Rightarrow> real \<Rightarrow> real \<Rightarrow> real \<Rightarrow> real \<Rightarrow> real" where
  "spec_put S K T r sigma =
     K * exp (- r * T) * Phi (- spec_d2 S K T r sigma) - S * Phi (- spec_d1 S K T r sigma)"

text \<open>
  The inputs and the intermediate results of the formula, in the order in which
  \<^verbatim>\<open>black_scholes\<close> computes them, for a call and for a put. \<open>bs_in_range\<close> says that all
  of them lie in the range of doubles: nothing overflows and nothing underflows.
\<close>

definition bs_intermediates :: "string \<Rightarrow> real \<Rightarrow> real \<Rightarrow> real \<Rightarrow> real \<Rightarrow> real \<Rightarrow> real list" where
  "bs_intermediates option_type S K T r sigma =
     (let d1 = spec_d1 S K T r sigma;
          d2 = spec_d2 S K T r sigma;
          disc = exp (- r * T)
      in [S, K, T, r, sigma,
          S / K, ln (S / K), sigma\<^sup>2, 0.5 * sigma\<^sup>2, r + 0.5 * sigma\<^sup>2,
          (r + 0.5 * sigma\<^sup>2) * T, ln (S / K) + (r + 0.5 * sigma\<^sup>2) * T,
          sqrt T, sigma * sqrt T, d1, d2, - r * T, disc, K * disc] @
         (if option_type = ''call''
          then [Phi d1, S * Phi d1, Phi d2, K * disc * Phi d2,
                S * Phi d1 - K * disc * Phi d2]
          else [Phi (- d2), K * disc * Phi (- d2), Phi (- d1), S * Phi (- d1),
                K * disc * Phi (- d2) - S * Phi (- d1)]))"

definition bs_in_range :: "string \<Rightarrow> real \<Rightarrow> real \<Rightarrow> real \<Rightarrow> real \<Rightarrow> real \<Rightarrow> bool" where
  "bs_in_range option_type S K T r sigma =
     list_all in_range (bs_intermediates option_type S K T r sigma)"

text \<open>
  The two operations of the formula that can raise on floats: the division \<^verbatim>\<open>S / K\<close> of
  two Python floats by zero, and the square of a finite Python float that overflows.
\<close>

fun py_zero_division :: "pyval \<Rightarrow> pyval \<Rightarrow> bool" where
  "py_zero_division (PyFloat a) (PyFloat b) = fl_iszero b"
| "py_zero_division a b = False"

fun pow_overflows :: "pyval \<Rightarrow> bool" where
  "pow_overflows (PyFloat (Fin x)) = (dbl_max < x\<^sup>2)"
| "pow_overflows v = False"

text \<open>\<open>is_float v x\<close>: the value \<open>v\<close> is a Python or numpy float, finite, equal to \<open>x\<close>.\<close>

fun is_float :: "pyval \<Rightarrow> real \<Rightarrow> bool" where
  "is_float PyNone x = False"
| "is_float (PyFloat a) x = (fl_finite a \<and> fl_val a = x)"
| "is_float (NpFloat a) x = (fl_finite a \<and> fl_val a = x)"

text \<open>\<open>evals e x\<close>: the expression \<open>e\<close> raises nothing and its value is the finite \<open>x\<close>.\<close>

definition evals :: "pyval result \<Rightarrow> real \<Rightarrow> bool" where
  "evals e x = (case e of Inl ex \<Rightarrow> False | Inr v \<Rightarrow> is_float v x)"

text \<open>\<open>returns c x\<close>: the call \<open>c\<close> returns a finite float equal to \<open>x\<close>.\<close>

definition returns :: "pyval result \<times> ui \<Rightarrow> real \<Rightarrow> bool" where
  "returns c x = evals (fst c) x"

section \<open>Evaluation on finite floats\<close>

text \<open>
  On finite operands every operation of the pricing formula is the exact operation on
  the reals, whichever of Python and numpy carries it out.
\<close>

lemma fl_neg_val:
  "fl_finite a \<Longrightarrow> fl_finite (fl_neg a) \<and> fl_val (fl_neg a) = - fl_val a"
  by (cases a) simp_all

lemma fl_add_val:
  "fl_finite a \<Longrightarrow> fl_finite b \<Longrightarrow>
   fl_finite (fl_add a b) \<and> fl_val (fl_add a b) = fl_val a + fl_val b"
  by (cases a; cases b) (simp_all add: fl_add_def fl_exact_def fl_zero_def)

lemma fl_sub_val:
  "fl_finite a \<Longrightarrow> fl_finite b \<Longrightarrow>
   fl_finite (fl_sub a b) \<and> fl_val (fl_sub a b) = fl_val a - fl_val b"
  using fl_add_val [of a "fl_neg b"] fl_neg_val [of b] by (simp add: fl_sub_def)

lemma fl_mul_val:
  "fl_finite a \<Longrightarrow> fl_finite b \<Longrightarrow>
   fl_finite (fl_mul a b) \<and> fl_val (fl_mul a b) = fl_val a * fl_val b"
  by (cases a; cases b) (simp_all add: fl_mul_def fl_exact_def fl_zero_def)

lemma fl_div_val:
  "fl_finite a \<Longrightarrow> fl_finite b \<Longrightarrow> fl_val b \<noteq> 0 \<Longrightarrow>
   fl_finite (fl_div a b) \<and> fl_val (fl_div a b) = fl_val a / fl_val b"
  by (cases a; cases b) (simp_all add: fl_div_def fl_exact_def fl_zero_def)

lemma fl_log_val:
  "fl_finite a \<Longrightarrow> 0 < fl_val a \<Longrightarrow> fl_finite (fl_log a) \<and> fl_val (fl_log a) = ln (fl_val a)"
  by (cases a) simp_all

lemma fl_sqrt_val:
  "fl_finite a \<Longrightarrow> 0 \<le> fl_val a \<Longrightarrow>
   fl_finite (fl_sqrt a) \<and> fl_val (fl_sqrt a) = sqrt (fl_val a)"
  by (cases a) simp_all

lemma fl_exp_val:
  "fl_finite a \<Longrightarrow> fl_finite (fl_exp a) \<and> fl_val (fl_exp a) = exp (fl_val a)"
  by (cases a) simp_all

lemma fl_cdf_val:
  "fl_finite a \<Longrightarrow> fl_finite (fl_cdf a) \<and> fl_val (fl_cdf a) = Phi (fl_val a)"
  by (cases a) simp_all


lemma evals_Inr: "evals e x \<longleftrightarrow> (\<exists>v. e = Inr v \<and> is_float v x)"
  by (cases e) (simp_all add: evals_def)

lemma is_float_cases:
  "is_float v x \<longleftrightarrow> (\<exists>a. (v = PyFloat a \<or> v = NpFloat a) \<and> fl_finite a \<and> fl_val a = x)"
  by (cases v) auto

lemma evals_var: "is_float v x \<Longrightarrow> evals (var v) x"
  by (simp add: evals_def var_def)

lemma evals_lit: "evals (lit x) x"
  by (simp add: evals_def lit_def)

lemma evals_binop:
  assumes f: "\<And>a b. fl_finite a \<Longrightarrow> fl_finite b \<Longrightarrow> fl_val a = x \<Longrightarrow> fl_val b = y \<Longrightarrow>
                 fl_finite (f a b) \<and> fl_val (f a b) = z"
    and a: "evals ea x" and b: "evals eb y"
  shows "evals (lift2 (py_binop f) ea eb) z"
proof -
  from a obtain va where va: "ea = Inr va" "is_float va x" by (auto simp: evals_Inr)
  from b obtain vb where vb: "eb = Inr vb" "is_float vb y" by (auto simp: evals_Inr)
  from va(2) vb(2) show ?thesis
    unfolding va(1) vb(1) by (cases va; cases vb) (simp_all add: lift2_def evals_def f)
qed

lemma evals_add: "evals a x \<Longrightarrow> evals b y \<Longrightarrow> evals (py_add a b) (x + y)"
  unfolding py_add_def by (rule evals_binop) (simp_all add: fl_add_val)

lemma evals_sub: "evals a x \<Longrightarrow> evals b y \<Longrightarrow> evals (py_sub a b) (x - y)"
  unfolding py_sub_def by (rule evals_binop) (simp_all add: fl_sub_val)

lemma evals_mul: "evals a x \<Longrightarrow> evals b y \<Longrightarrow> evals (py_mul a b) (x * y)"
  unfolding py_mul_def by (rule evals_binop) (simp_all add: fl_mul_val)

lemma evals_truediv:
  assumes a: "evals ea x" and b: "evals eb y" and y: "y \<noteq> 0"
  shows "evals (py_truediv ea eb) (x / y)"
proof -
  from a obtain va where va: "ea = Inr va" "is_float va x" by (auto simp: evals_Inr)
  from b obtain vb where vb: "eb = Inr vb" "is_float vb y" by (auto simp: evals_Inr)
  have nz: "\<not> fl_iszero c" if "fl_finite c" "fl_val c = y" for c
    using that y by (cases c) auto
  from va(2) vb(2) show ?thesis
    unfolding va(1) vb(1) py_truediv_def using y
    by (cases va; cases vb) (auto simp: lift2_def evals_def fl_div_val nz)
qed

lemma evals_unop:
  assumes f: "\<And>a. fl_finite a \<Longrightarrow> fl_val a = x \<Longrightarrow> fl_finite (f a) \<and> fl_val (f a) = z"
    and a: "evals ea x"
  shows "evals (lift1 (py_unop f) ea) z" "evals (lift1 (np_ufunc f) ea) z"
proof -
  from a obtain va where va: "ea = Inr va" "is_float va x" by (auto simp: evals_Inr)
  from va(2) show "evals (lift1 (py_unop f) ea) z" "evals (lift1 (np_ufunc f) ea) z"
    unfolding va(1) by (cases va; simp add: lift1_def evals_def f)+
qed

lemma evals_neg: "evals a x \<Longrightarrow> evals (py_neg a) (- x)"
  unfolding py_neg_def by (rule evals_unop) (simp_all add: fl_neg_val)

lemma dbl_max_pos: "0 < dbl_max"
  by (simp add: dbl_max_def)

lemma dbl_min_pos: "0 < dbl_min"
  by (simp add: dbl_min_def)

lemma in_range_le_dbl_max: "in_range x \<Longrightarrow> x \<le> dbl_max"
  using dbl_max_pos by (auto simp: in_range_def)

lemma evals_pow2:
  assumes a: "evals ea x" and x: "x\<^sup>2 \<le> dbl_max"
  shows "evals (py_pow2 ea) (x\<^sup>2)"
proof -
  from a obtain va where va: "ea = Inr va" "is_float va x" by (auto simp: evals_Inr)
  have sq: "fl_finite (fl_mul c c) \<and> fl_val (fl_mul c c) = x\<^sup>2"
    if "fl_finite c" "fl_val c = x" for c
    using fl_mul_val [OF that(1) that(1)] that(2) by (simp add: power2_eq_square)
  show ?thesis
  proof (cases va)
    case PyNone
    with va(2) show ?thesis by simp
  next
    case (PyFloat c)
    with va(2) have c: "fl_finite c" "fl_val c = x" by simp_all
    show ?thesis
    proof (cases c)
      case (Fin y)
      with c x have "\<not> dbl_max < y\<^sup>2" by simp
      with sq [OF c] show ?thesis
        by (simp add: py_pow2_def lift1_def evals_def va(1) PyFloat Fin)
    qed (use c sq [OF c] in \<open>simp_all add: py_pow2_def lift1_def evals_def va(1) PyFloat\<close>)
  next
    case (NpFloat c)
    with va(2) have c: "fl_finite c" "fl_val c = x" by simp_all
    from sq [OF c] show ?thesis
      by (simp add: py_pow2_def lift1_def evals_def va(1) NpFloat)
  qed
qed

lemma evals_log: "evals a x \<Longrightarrow> 0 < x \<Longrightarrow> evals (np_log a) (ln x)"
  unfolding np_log_def by (rule evals_unop) (simp_all add: fl_log_val)

lemma evals_sqrt: "evals a x \<Longrightarrow> 0 \<le> x \<Longrightarrow> evals (np_sqrt a) (sqrt x)"
  unfolding np_sqrt_def by (rule evals_unop) (simp_all add: fl_sqrt_val)

lemma evals_exp: "evals a x \<Longrightarrow> evals (np_exp a) (exp x)"
  unfolding np_exp_def by (rule evals_unop) (simp_all add: fl_exp_val)

lemma evals_cdf: "evals a x \<Longrightarrow> evals (norm_cdf a) (Phi x)"
  unfolding norm_cdf_def by (rule evals_unop) (simp_all add: fl_cdf_val)

lemma bs_d1_valid:
  assumes "is_float S s" "is_float K k" "is_float T t" "is_float r \<rho>" "is_float sigma \<sigma>"
    and "0 < s" "0 < k" "0 < t" "0 < \<sigma>" and "\<sigma>\<^sup>2 \<le> dbl_max"
  shows "evals (bs_d1 S K T r sigma) (spec_d1 s k t \<rho> \<sigma>)"
proof -
  have "evals (bs_d1 S K T r sigma)
          ((ln (s / k) + (\<rho> + 0.5 * \<sigma>\<^sup>2) * t) / (\<sigma> * sqrt t))"
    unfolding bs_d1_def using assms
    by (intro evals_truediv evals_add evals_mul evals_log evals_sqrt evals_pow2 evals_var
        evals_lit) simp_all
  then show ?thesis by (simp add: spec_d1_def)
qed

lemma bs_d2_valid:
  assumes "is_float d1 x" "is_float T t" "is_float sigma \<sigma>" "0 < t"
  shows "evals (bs_d2 d1 T sigma) (x - \<sigma> * sqrt t)"
  unfolding bs_d2_def using assms
  by (intro evals_sub evals_mul evals_sqrt evals_var) simp_all

lemma bs_price_valid:
  assumes "is_float S s" "is_float K k" "is_float T t" "is_float r \<rho>"
    and "is_float d1 x1" "is_float d2 x2"
  shows "evals (bs_price S K T r d1 d2 option_type)
           (if option_type = ''call'' then s * Phi x1 - k * exp (- \<rho> * t) * Phi x2
            else k * exp (- \<rho> * t) * Phi (- x2) - s * Phi (- x1))"
proof -
  have disc: "evals (py_mul (var K) (np_exp (py_mul (py_neg (var r)) (var T))))
                (k * exp (- \<rho> * t))"
    using assms by (intro evals_mul evals_exp evals_neg evals_var)
  show ?thesis
  proof (cases "option_type = ''call''")
    case True
    have "evals (bs_price S K T r d1 d2 option_type)
            (s * Phi x1 - k * exp (- \<rho> * t) * Phi x2)"
      unfolding bs_price_def if_P [OF True] using assms
      by (intro evals_sub evals_mul evals_cdf evals_var disc)
    with True show ?thesis by simp
  next
    case False
    have "evals (bs_price S K T r d1 d2 option_type)
            (k * exp (- \<rho> * t) * Phi (- x2) - s * Phi (- x1))"
      unfolding bs_price_def if_not_P [OF False] using assms
      by (intro evals_sub evals_mul evals_cdf evals_neg evals_var disc)
    with False show ?thesis by simp
  qed
qed

lemma black_scholes_try_valid:
  assumes "is_float S s" "is_float K k" "is_float T t" "is_float r \<rho>" "is_float sigma \<sigma>"
    and "0 < s" "0 < k" "0 < t" "0 < \<sigma>" and "\<sigma>\<^sup>2 \<le> dbl_max"
  shows "evals (black_scholes_try S K T r sigma option_type)
           (if option_type = ''call'' then spec_call s k t \<rho> \<sigma> else spec_put s k t \<rho> \<sigma>)"
proof -
  from bs_d1_valid [OF assms] obtain d1
    where d1: "bs_d1 S K T r sigma = Inr d1" "is_float d1 (spec_d1 s k t \<rho> \<sigma>)"
    by (auto simp: evals_Inr)
  from bs_d2_valid [OF d1(2) assms(3) assms(5) assms(8)] obtain d2
    where d2: "bs_d2 d1 T sigma = Inr d2" "is_float d2 (spec_d2 s k t \<rho> \<sigma>)"
    by (auto simp: evals_Inr spec_d2_def)
  from bs_price_valid [OF assms(1-4) d1(2) d2(2), of option_type]
  show ?thesis
    by (cases "option_type = ''call''")
      (simp_all add: black_scholes_try_def d1(1) d2(1) spec_call_def spec_put_def)
qed

lemma black_scholes_valid:
  assumes "is_float S s" "is_float K k" "is_float T t" "is_float r \<rho>" "is_float sigma \<sigma>"
    and "0 < s" "0 < k" "0 < t" "0 < \<sigma>" and "\<sigma>\<^sup>2 \<le> dbl_max"
  shows "returns (black_scholes S K T r sigma option_type u)
           (if option_type = ''call'' then spec_call s k t \<rho> \<sigma> else spec_put s k t \<rho> \<sigma>)"
    and "snd (black_scholes S K T r sigma option_type u) = u"
  using black_scholes_try_valid [OF assms, of option_type]
  by (auto simp: returns_def black_scholes_def evals_Inr split: sum.splits)

lemma bs_in_range_sigma:
  assumes "bs_in_range option_type s k t \<rho> \<sigma>"
  shows "\<sigma>\<^sup>2 \<le> dbl_max"
proof -
  from assms have "in_range (\<sigma>\<^sup>2)"
    by (simp add: bs_in_range_def bs_intermediates_def Let_def)
  then show ?thesis by (rule in_range_le_dbl_max)
qed

lemma black_scholes_in_range:
  assumes "is_float S s" "is_float K k" "is_float T t" "is_float r \<rho>" "is_float sigma \<sigma>"
    and "0 < s" "0 < k" "0 < t" "0 < \<sigma>" and "bs_in_range option_type s k t \<rho> \<sigma>"
  shows "returns (black_scholes S K T r sigma option_type u)
           (if option_type = ''call'' then spec_call s k t \<rho> \<sigma> else spec_put s k t \<rho> \<sigma>)"
  by (rule black_scholes_valid(1) [OF assms(1-9) bs_in_range_sigma [OF assms(10)]])

lemma black_scholes_at_overflow:
  "black_scholes (NpFloat (Fin 100)) (NpFloat (Fin 100)) (PyFloat (Fin 1))
     (PyFloat (Fin 0.015)) (PyFloat (Fin (10 ^ 200))) option_type u =
   (Inr (PyFloat NaN), u @ [St_error_black_scholes OverflowError])"
proof -
  have "dbl_max < ((10 :: real) ^ 200)\<^sup>2"
    by (simp add: dbl_max_def)
  then have "bs_d1 (NpFloat (Fin 100)) (NpFloat (Fin 100)) (PyFloat (Fin 1))
     (PyFloat (Fin 0.015)) (PyFloat (Fin (10 ^ 200))) = Inl OverflowError"
    by (simp add: bs_d1_def py_truediv_def py_add_def py_mul_def np_log_def np_sqrt_def
        py_pow2_def lift1_def lift2_def var_def lit_def fl_div_def fl_exact_def fl_zero_def)
  then show ?thesis
    by (simp add: black_scholes_def black_scholes_try_def)
qed

section \<open>The pricing function: results and errors\<close>

subsection \<open>The handler\<close>

lemma is_Exception_all: "is_Exception e"
  by (cases e) simp_all

lemma black_scholes_result:
  "fst (black_scholes S K T r sigma option_type u) =
     (case black_scholes_try S K T r sigma option_type of
        Inl e \<Rightarrow> Inr (PyFloat NaN) | Inr price \<Rightarrow> Inr price)"
  by (cases "black_scholes_try S K T r sigma option_type")
    (simp_all add: black_scholes_def is_Exception_all)

lemma py_binop_float:
  "py_binop f a b = Inr v \<Longrightarrow> \<exists>c. v = PyFloat c \<or> v = NpFloat c"
  by (cases a; cases b) auto

lemma lift2_binop_float:
  "lift2 (py_binop f) ea eb = Inr v \<Longrightarrow> \<exists>c. v = PyFloat c \<or> v = NpFloat c"
  by (auto simp: lift2_def split: sum.splits dest: py_binop_float)

lemma black_scholes_try_float:
  assumes "black_scholes_try S K T r sigma option_type = Inr v"
  shows "\<exists>c. v = PyFloat c \<or> v = NpFloat c"
proof -
  from assms obtain d1 d2 where "bs_price S K T r d1 d2 option_type = Inr v"
    by (auto simp: black_scholes_try_def split: sum.splits)
  then show ?thesis
    by (auto simp: bs_price_def py_sub_def split: if_splits dest: lift2_binop_float)
qed

text \<open>
  C10. \<^verbatim>\<open>black_scholes\<close> never lets an exception out: for every input, \<^verbatim>\<open>None\<close> and
  non-finite floats included, the call returns a float, and when the computation in
  the \<^verbatim>\<open>try\<close> block raised, the value returned is NaN.
\<close>

theorem black_scholes_never_raises:
  "(\<exists>c. fst (black_scholes S K T r sigma option_type u) = Inr (PyFloat c) \<or>
        fst (black_scholes S K T r sigma option_type u) = Inr (NpFloat c)) \<and>
   (\<forall>e. black_scholes_try S K T r sigma option_type = Inl e \<longrightarrow>
        fst (black_scholes S K T r sigma option_type u) = Inr (PyFloat NaN))"
proof (cases "black_scholes_try S K T r sigma option_type")
  case (Inl e)
  then show ?thesis by (simp add: black_scholes_def is_Exception_all)
next
  case (Inr v)
  with black_scholes_try_float [OF Inr] show ?thesis
    by (auto simp: black_scholes_def)
qed

theorem black_scholes_never_raises_witness:
  "black_scholes_try (PyFloat (Fin 100)) (PyFloat (Fin 0)) (PyFloat (Fin 1))
     (PyFloat (Fin 0.015)) (PyFloat (Fin 0.2)) ''call'' = Inl ZeroDivisionError \<and>
   fst (black_scholes (PyFloat (Fin 100)) (PyFloat (Fin 0)) (PyFloat (Fin 1))
     (PyFloat (Fin 0.015)) (PyFloat (Fin 0.2)) ''call'' []) = Inr (PyFloat NaN)"
proof -
  have raised: "black_scholes_try (PyFloat (Fin 100)) (PyFloat (Fin 0)) (PyFloat (Fin 1))
     (PyFloat (Fin 0.015)) (PyFloat (Fin 0.2)) ''call'' = Inl ZeroDivisionError"
    by (simp add: black_scholes_try_def bs_d1_def py_truediv_def py_add_def py_mul_def
        np_log_def np_sqrt_def py_pow2_def lift1_def lift2_def var_def lit_def)
  with black_scholes_never_raises [of "PyFloat (Fin 100)" "PyFloat (Fin 0)" "PyFloat (Fin 1)"
      "PyFloat (Fin 0.015)" "PyFloat (Fin 0.2)" "''call''" "[]"]
  show ?thesis by simp
qed

subsection \<open>The closed form\<close>

text \<open>
  C1, as the specification states it, fails: \<open>S = 100\<close>, \<open>K = 100\<close>, \<open>T = 1\<close>,
  \<open>r = 0.015\<close> and the Python float \<open>sigma = 1e200\<close> are all positive, but
  \<^verbatim>\<open>sigma ** 2\<close> overflows; Python raises \<^verbatim>\<open>OverflowError\<close>, the handler reports it and
  the call returns NaN, not the closed form.
\<close>

theorem black_scholes_overflow_not_closed_form:
  "black_scholes (NpFloat (Fin 100)) (NpFloat (Fin 100)) (PyFloat (Fin 1))
     (PyFloat (Fin 0.015)) (PyFloat (Fin (10 ^ 200))) ''call'' [] =
     (Inr (PyFloat NaN), [St_error_black_scholes OverflowError]) \<and>
   \<not> returns (black_scholes (NpFloat (Fin 100)) (NpFloat (Fin 100)) (PyFloat (Fin 1))
     (PyFloat (Fin 0.015)) (PyFloat (Fin (10 ^ 200))) ''call'' [])
       (spec_call 100 100 1 0.015 (10 ^ 200))"
  unfolding black_scholes_at_overflow by (simp add: returns_def evals_def)

text \<open>
  C1, amended. For finite inputs with \<open>S > 0\<close>, \<open>K > 0\<close>, \<open>sigma > 0\<close> and \<open>T > 0\<close> (Python
  or numpy floats, in any mix) for which no intermediate result of the formula leaves
  the range of doubles, \<^verbatim>\<open>black_scholes\<close> returns the closed form of the specification:
  \<open>S * Phi d1 - K * exp (- r T) * Phi d2\<close> for a call and
  \<open>K * exp (- r T) * Phi (- d2) - S * Phi (- d1)\<close> for a put, with \<open>d1\<close> and \<open>d2\<close> as the
  specification defines them.
\<close>

theorem black_scholes_closed_form:
  assumes "is_float S s" "is_float K k" "is_float T t" "is_float r \<rho>" "is_float sigma \<sigma>"
    and "0 < s" "0 < k" "0 < \<sigma>" "0 < t"
    and "bs_in_range ''call'' s k t \<rho> \<sigma>" "bs_in_range ''put'' s k t \<rho> \<sigma>"
  shows "let d1 = (ln (s / k) + (\<rho> + \<sigma>\<^sup>2 / 2) * t) / (\<sigma> * sqrt t);
             d2 = d1 - \<sigma> * sqrt t
         in returns (black_scholes S K T r sigma ''call'' u)
              (s * Phi d1 - k * exp (- \<rho> * t) * Phi d2) \<and>
            returns (black_scholes S K T r sigma ''put'' u)
              (k * exp (- \<rho> * t) * Phi (- d2) - s * Phi (- d1))"
  using black_scholes_in_range [OF assms(1-7) assms(9) assms(8) assms(10), of u]
    black_scholes_in_range [OF assms(1-7) assms(9) assms(8) assms(11), of u]
  by (simp add: spec_call_def spec_put_def spec_d1_def spec_d2_def Let_def)

subsection \<open>Invalid inputs\<close>

lemma black_scholes_at_T0:
  "black_scholes (PyFloat (Fin 100)) (PyFloat (Fin 100)) (PyFloat (Fin 0))
     (PyFloat (Fin 0.015)) (PyFloat (Fin 0.2)) ''call'' u = (Inr (NpFloat NaN), u)"
  by (simp add: black_scholes_def black_scholes_try_def bs_d1_def bs_d2_def bs_price_def
      py_truediv_def py_add_def py_sub_def py_mul_def py_neg_def np_log_def np_sqrt_def
      np_exp_def norm_cdf_def py_pow2_def lift1_def lift2_def var_def lit_def
      fl_add_def fl_sub_def fl_mul_def fl_div_def fl_exact_def fl_zero_def dbl_max_def
      power2_eq_square)

text \<open>
  C2, as the specification states it, fails: at \<open>S = 100\<close>, \<open>K = 100\<close>, \<open>T = 0\<close>,
  \<open>r = 0.015\<close>, \<open>sigma = 0.20\<close> \<^verbatim>\<open>black_scholes\<close> raises nothing. The division \<open>0 / 0\<close>
  in \<open>d1\<close> is numpy's, and the call returns NaN.
\<close>

theorem black_scholes_T0_returns_nan:
  "fst (black_scholes (PyFloat (Fin 100)) (PyFloat (Fin 100)) (PyFloat (Fin 0))
     (PyFloat (Fin 0.015)) (PyFloat (Fin 0.2)) ''call'' []) = Inr (NpFloat NaN)"
  using black_scholes_at_T0 [of "[]"] by simp

text \<open>
  C2, amended. For every finite input with \<open>S \<le> 0\<close>, \<open>K \<le> 0\<close>, \<open>sigma \<le> 0\<close> or \<open>T \<le> 0\<close>
  the call raises no error and returns a float; at the scenario of the specification
  that float is NaN.
\<close>

theorem black_scholes_invalid_returns:
  assumes "is_float S s" "is_float K k" "is_float T t" "is_float r \<rho>" "is_float sigma \<sigma>"
    and "s \<le> 0 \<or> k \<le> 0 \<or> \<sigma> \<le> 0 \<or> t \<le> 0"
  shows "(\<exists>c. fst (black_scholes S K T r sigma option_type u) = Inr (PyFloat c) \<or>
              fst (black_scholes S K T r sigma option_type u) = Inr (NpFloat c)) \<and>
         fst (black_scholes (PyFloat (Fin 100)) (PyFloat (Fin 100)) (PyFloat (Fin 0))
                (PyFloat (Fin 0.015)) (PyFloat (Fin 0.2)) ''call'' u) = Inr (NpFloat NaN)"
proof (rule conjI)
  show "\<exists>c. fst (black_scholes S K T r sigma option_type u) = Inr (PyFloat c) \<or>
             fst (black_scholes S K T r sigma option_type u) = Inr (NpFloat c)"
  proof (cases "black_scholes_try S K T r sigma option_type")
    case (Inl e)
    then show ?thesis by (simp add: black_scholes_def is_Exception_all)
  next
    case (Inr v)
    with black_scholes_try_float [OF Inr] show ?thesis
      by (auto simp: black_scholes_def)
  qed
  show "fst (black_scholes (PyFloat (Fin 100)) (PyFloat (Fin 100)) (PyFloat (Fin 0))
              (PyFloat (Fin 0.015)) (PyFloat (Fin 0.2)) ''call'' u) = Inr (NpFloat NaN)"
    using black_scholes_at_T0 [of u] by simp
qed

theorem black_scholes_invalid_returns_witness:
  "(\<exists>c. fst (black_scholes (NpFloat (Fin 100)) (NpFloat (Fin 0)) (PyFloat (Fin 1))
            (PyFloat (Fin 0.015)) (PyFloat (Fin 0.2)) ''put'' []) = Inr (PyFloat c) \<or>
        fst (black_scholes (NpFloat (Fin 100)) (NpFloat (Fin 0)) (PyFloat (Fin 1))
            (PyFloat (Fin 0.015)) (PyFloat (Fin 0.2)) ''put'' []) = Inr (NpFloat c))"
  using black_scholes_invalid_returns [of "NpFloat (Fin 100)" 100 "NpFloat (Fin 0)" 0
      "PyFloat (Fin 1)" 1 "PyFloat (Fin 0.015)" "0.015" "PyFloat (Fin 0.2)" "0.2" "''put''" "[]"]
  by simp

subsection \<open>The substitution of the time to expiration\<close>

text \<open>
  C3. When the computed time to expiration is not positive (\<open>days \<le> 0\<close>, so
  \<open>T = days / 365 \<le> 0\<close>), the page reports the expiration date with \<^verbatim>\<open>st.error\<close>, goes
  on with \<open>T = 0.01\<close>, and the price it shows is the one \<^verbatim>\<open>black_scholes\<close> returns at
  \<open>T = 0.01\<close>: the script is not ended by an error.
\<close>

theorem nonpositive_T_priced_at_one_hundredth:
  assumes "days \<le> 0"
  shows "time_to_expiration days u = (PyFloat (Fin 0.01), u @ [St_error_expiration]) \<and>
         (\<exists>price u'.
            black_scholes current_price strike (PyFloat (Fin 0.01)) risk_free_rate volatility
              option_type (u @ [St_error_expiration]) = (Inr price, u') \<and>
            price_section current_price strike days risk_free_rate volatility option_type u =
              (Inr price, u' @ [St_write_price price]))"
proof -
  have T: "time_to_expiration days u = (PyFloat (Fin 0.01), u @ [St_error_expiration])"
    using assms by (simp add: time_to_expiration_def)
  obtain res u' where call:
    "black_scholes current_price strike (PyFloat (Fin 0.01)) risk_free_rate volatility
       option_type (u @ [St_error_expiration]) = (res, u')"
    by (cases "black_scholes current_price strike (PyFloat (Fin 0.01)) risk_free_rate
          volatility option_type (u @ [St_error_expiration])")
  from black_scholes_result [of current_price strike "PyFloat (Fin 0.01)" risk_free_rate
      volatility option_type "u @ [St_error_expiration]"]
  obtain price where "res = Inr price"
    unfolding call by (auto split: sum.splits)
  with T call show ?thesis by (simp add: price_section_def)
qed

theorem nonpositive_T_priced_at_one_hundredth_witness:
  "time_to_expiration (- 3) [] = (PyFloat (Fin 0.01), [St_error_expiration]) \<and>
   (\<exists>price u'.
      black_scholes (NpFloat (Fin 100)) (NpFloat (Fin 100)) (PyFloat (Fin 0.01))
        (PyFloat (Fin 0.015)) (PyFloat (Fin 0.2)) ''call'' [St_error_expiration]
        = (Inr price, u') \<and>
      price_section (NpFloat (Fin 100)) (NpFloat (Fin 100)) (- 3)
        (PyFloat (Fin 0.015)) (PyFloat (Fin 0.2)) ''call'' []
        = (Inr price, u' @ [St_write_price price]))"
  using nonpositive_T_priced_at_one_hundredth [of "- 3" "[]" "NpFloat (Fin 100)"
      "NpFloat (Fin 100)" "PyFloat (Fin 0.015)" "PyFloat (Fin 0.2)" "''call''"]
  by simp

subsection \<open>Determinism and effects\<close>

lemma truediv_raises:
  "truediv a b = Inr v \<Longrightarrow> a \<noteq> PyNone \<and> b \<noteq> PyNone \<and> \<not> py_zero_division a b"
  by (cases a; cases b) (auto split: if_splits)

lemma truediv_float:
  "a \<noteq> PyNone \<Longrightarrow> b \<noteq> PyNone \<Longrightarrow> \<not> py_zero_division a b \<Longrightarrow>
     \<exists>v. truediv a b = Inr v \<and> v \<noteq> PyNone"
  by (cases a; cases b) auto

lemma pow2_raises: "pow2 a = Inr v \<Longrightarrow> a \<noteq> PyNone \<and> \<not> pow_overflows a"
proof (cases a)
  case (PyFloat x)
  assume "pow2 a = Inr v"
  with PyFloat show ?thesis by (cases x) (auto split: if_splits)
qed auto

lemma pow2_float:
  assumes "a \<noteq> PyNone" "\<not> pow_overflows a"
  shows "\<exists>v. pow2 a = Inr v \<and> v \<noteq> PyNone"
proof (cases a)
  case (PyFloat x)
  with assms show ?thesis by (cases x) auto
qed (use assms in auto)

lemma py_binop_some:
  "a \<noteq> PyNone \<Longrightarrow> b \<noteq> PyNone \<Longrightarrow> \<exists>v. py_binop f a b = Inr v \<and> v \<noteq> PyNone"
  by (cases a; cases b) auto

lemma py_binop_np:
  "a \<noteq> PyNone \<Longrightarrow> \<exists>c. py_binop f a (NpFloat b) = Inr (NpFloat c)"
  "a \<noteq> PyNone \<Longrightarrow> \<exists>c. py_binop f (NpFloat b) a = Inr (NpFloat c)"
  by (cases a; auto)+

lemma py_binop_raises:
  "py_binop f a b = Inr v \<Longrightarrow> a \<noteq> PyNone \<and> b \<noteq> PyNone"
  by (cases a; cases b) auto

lemma np_ufunc_np: "a \<noteq> PyNone \<Longrightarrow> np_ufunc f a = Inr (NpFloat (f (case a of PyFloat x \<Rightarrow> x | NpFloat x \<Rightarrow> x)))"
  by (cases a) auto

lemma np_ufunc_raises: "np_ufunc f a = Inr v \<Longrightarrow> a \<noteq> PyNone"
  by (cases a) auto

lemma py_unop_some: "a \<noteq> PyNone \<Longrightarrow> \<exists>v. py_unop f a = Inr v \<and> v \<noteq> PyNone"
  by (cases a) auto

lemma bs_d1_raises:
  assumes "bs_d1 S K T r sigma = Inr d1"
  shows "S \<noteq> PyNone \<and> K \<noteq> PyNone \<and> T \<noteq> PyNone \<and> r \<noteq> PyNone \<and> sigma \<noteq> PyNone \<and>
         \<not> py_zero_division S K \<and> \<not> pow_overflows sigma"
  using assms
  by (auto simp: bs_d1_def py_truediv_def py_add_def py_mul_def np_log_def np_sqrt_def
      py_pow2_def lift1_def lift2_def var_def lit_def split: sum.splits
      dest: truediv_raises pow2_raises py_binop_raises np_ufunc_raises)

lemma bs_d1_float:
  assumes "S \<noteq> PyNone" "K \<noteq> PyNone" "T \<noteq> PyNone" "r \<noteq> PyNone" "sigma \<noteq> PyNone"
    and "\<not> py_zero_division S K" "\<not> pow_overflows sigma"
  shows "\<exists>c. bs_d1 S K T r sigma = Inr (NpFloat c)"
proof -
  from truediv_float [OF assms(1,2,6)] obtain q where q: "truediv S K = Inr q" "q \<noteq> PyNone"
    by blast
  from pow2_float [OF assms(5,7)] obtain p where p: "pow2 sigma = Inr p" "p \<noteq> PyNone"
    by blast
  from py_binop_some [OF _ p(2), of "PyFloat (Fin (1 / 2))" fl_mul] obtain h
    where h: "py_binop fl_mul (PyFloat (Fin (1 / 2))) p = Inr h" "h \<noteq> PyNone" by auto
  from py_binop_some [OF assms(4) h(2), of fl_add] obtain a
    where a: "py_binop fl_add r h = Inr a" "a \<noteq> PyNone" by auto
  from py_binop_some [OF a(2) assms(3), of fl_mul] obtain m
    where m: "py_binop fl_mul a T = Inr m" "m \<noteq> PyNone" by auto
  obtain l where l: "np_ufunc fl_log q = Inr (NpFloat l)" using np_ufunc_np [OF q(2)] by blast
  from py_binop_np(2) [OF m(2), of fl_add l] obtain n
    where n: "py_binop fl_add (NpFloat l) m = Inr (NpFloat n)" by auto
  obtain st where st: "np_ufunc fl_sqrt T = Inr (NpFloat st)"
    using np_ufunc_np [OF assms(3)] by blast
  from py_binop_np(1) [OF assms(5), of fl_mul st] obtain d
    where d: "py_binop fl_mul sigma (NpFloat st) = Inr (NpFloat d)" by auto
  show ?thesis
    by (simp add: bs_d1_def py_truediv_def py_add_def py_mul_def np_log_def np_sqrt_def
      py_pow2_def lift1_def lift2_def var_def lit_def q p h a m l n st d)
qed

lemma bs_d2_float:
  assumes "T \<noteq> PyNone" "sigma \<noteq> PyNone"
  shows "\<exists>c. bs_d2 (NpFloat d1) T sigma = Inr (NpFloat c)"
proof -
  obtain st where st: "np_ufunc fl_sqrt T = Inr (NpFloat st)"
    using np_ufunc_np [OF assms(1)] by blast
  from py_binop_np(1) [OF assms(2), of fl_mul st] obtain d
    where d: "py_binop fl_mul sigma (NpFloat st) = Inr (NpFloat d)" by auto
  show ?thesis
    by (simp add: bs_d2_def py_sub_def py_mul_def np_sqrt_def lift1_def lift2_def var_def st d)
qed

lemma bs_price_float:
  assumes "S \<noteq> PyNone" "K \<noteq> PyNone" "T \<noteq> PyNone" "r \<noteq> PyNone"
  shows "\<exists>c. bs_price S K T r (NpFloat d1) (NpFloat d2) option_type = Inr (NpFloat c)"
proof -
  from py_unop_some [OF assms(4), of fl_neg] obtain nr
    where nr: "py_unop fl_neg r = Inr nr" "nr \<noteq> PyNone" by auto
  from py_binop_some [OF nr(2) assms(3), of fl_mul] obtain rt
    where rt: "py_binop fl_mul nr T = Inr rt" "rt \<noteq> PyNone" by auto
  obtain e where e: "np_ufunc fl_exp rt = Inr (NpFloat e)" using np_ufunc_np [OF rt(2)] by blast
  from py_binop_np(1) [OF assms(2), of fl_mul e] obtain ke
    where ke: "py_binop fl_mul K (NpFloat e) = Inr (NpFloat ke)" by auto
  have sp: "\<exists>c. py_binop fl_mul S (NpFloat x) = Inr (NpFloat c)" for x
    using py_binop_np(1) [OF assms(1)] by auto
  show ?thesis
  proof (cases "option_type = ''call''")
    case True
    from sp [of "fl_cdf d1"] obtain a where a: "py_binop fl_mul S (NpFloat (fl_cdf d1)) = Inr (NpFloat a)"
      by auto
    show ?thesis using True
      by (simp add: bs_price_def py_sub_def py_mul_def py_neg_def np_exp_def norm_cdf_def
          lift1_def lift2_def var_def nr rt e ke a)
  next
    case False
    from sp [of "fl_cdf (fl_neg d1)"] obtain a
      where a: "py_binop fl_mul S (NpFloat (fl_cdf (fl_neg d1))) = Inr (NpFloat a)" by auto
    show ?thesis using False
      by (simp add: bs_price_def py_sub_def py_mul_def py_neg_def np_exp_def norm_cdf_def
          lift1_def lift2_def var_def nr rt e ke a)
  qed
qed

lemma black_scholes_try_no_raise:
  assumes "S \<noteq> PyNone" "K \<noteq> PyNone" "T \<noteq> PyNone" "r \<noteq> PyNone" "sigma \<noteq> PyNone"
    and "\<not> py_zero_division S K" "\<not> pow_overflows sigma"
  shows "\<exists>c. black_scholes_try S K T r sigma option_type = Inr (NpFloat c)"
proof -
  from bs_d1_float [OF assms] obtain d1 where d1: "bs_d1 S K T r sigma = Inr (NpFloat d1)" ..
  from bs_d2_float [OF assms(3) assms(5)] obtain d2
    where d2: "bs_d2 (NpFloat d1) T sigma = Inr (NpFloat d2)" ..
  from bs_price_float [OF assms(1-4)] obtain c
    where "bs_price S K T r (NpFloat d1) (NpFloat d2) option_type = Inr (NpFloat c)" ..
  then show ?thesis by (simp add: black_scholes_try_def d1 d2)
qed

lemma black_scholes_try_raises:
  assumes "S = PyNone \<or> K = PyNone \<or> T = PyNone \<or> r = PyNone \<or> sigma = PyNone \<or>
      py_zero_division S K \<or> pow_overflows sigma"
  shows "\<exists>e. black_scholes_try S K T r sigma option_type = Inl e"
proof -
  from assms have "\<not> (\<exists>d1. bs_d1 S K T r sigma = Inr d1)"
    using bs_d1_raises [of S K T r sigma] by blast
  then obtain e where "bs_d1 S K T r sigma = Inl e"
    by (cases "bs_d1 S K T r sigma") auto
  then show ?thesis by (simp add: black_scholes_try_def)
qed

text \<open>
  C9, as the specification states it, fails: \<^verbatim>\<open>black_scholes\<close> is not free of side
  effects. With the current price \<^verbatim>\<open>None\<close> (no stock data) the division \<^verbatim>\<open>S / K\<close> raises
  \<^verbatim>\<open>TypeError\<close>, and the handler writes an error to the page.
\<close>

theorem black_scholes_writes_to_page:
  "snd (black_scholes PyNone (NpFloat (Fin 100)) (PyFloat (Fin 1)) (PyFloat (Fin 0.015))
          (PyFloat (Fin 0.2)) ''call'' []) = [St_error_black_scholes TypeError]"
  by (simp add: black_scholes_def black_scholes_try_def bs_d1_def py_truediv_def py_add_def
      py_mul_def np_log_def np_sqrt_def py_pow2_def lift1_def lift2_def var_def lit_def)

text \<open>
  C9, amended. What \<^verbatim>\<open>black_scholes\<close> returns and what it writes to the page depend on
  its six arguments only, not on the state of the page (and the function reads no
  clock). It has no side effect exactly when the computation raises nothing. When an
  argument is \<^verbatim>\<open>None\<close>, when \<^verbatim>\<open>S / K\<close> divides a Python float by a zero Python float, or
  when \<^verbatim>\<open>sigma ** 2\<close> overflows, it reports the exception on the page with one
  \<^verbatim>\<open>st.error\<close> and returns NaN; on every other input it returns a numpy float and
  leaves the page as it is.
\<close>

theorem black_scholes_deterministic:
  "if S = PyNone \<or> K = PyNone \<or> T = PyNone \<or> r = PyNone \<or> sigma = PyNone \<or>
      py_zero_division S K \<or> pow_overflows sigma
   then \<exists>e. \<forall>u. black_scholes S K T r sigma option_type u =
                 (Inr (PyFloat NaN), u @ [St_error_black_scholes e])
   else \<exists>c. \<forall>u. black_scholes S K T r sigma option_type u = (Inr (NpFloat c), u)"
proof (cases "S = PyNone \<or> K = PyNone \<or> T = PyNone \<or> r = PyNone \<or> sigma = PyNone \<or>
      py_zero_division S K \<or> pow_overflows sigma")
  case True
  from black_scholes_try_raises [OF True, of option_type] obtain e
    where "black_scholes_try S K T r sigma option_type = Inl e" ..
  then have "\<exists>e. \<forall>u. black_scholes S K T r sigma option_type u =
                 (Inr (PyFloat NaN), u @ [St_error_black_scholes e])"
    by (simp add: black_scholes_def is_Exception_all)
  then show ?thesis by (simp only: True if_True)
next
  case False
  then have "S \<noteq> PyNone" "K \<noteq> PyNone" "T \<noteq> PyNone" "r \<noteq> PyNone" "sigma \<noteq> PyNone"
      "\<not> py_zero_division S K" "\<not> pow_overflows sigma" by simp_all
  from black_scholes_try_no_raise [OF this, of option_type] obtain c
    where "black_scholes_try S K T r sigma option_type = Inr (NpFloat c)" ..
  then have "\<exists>c. \<forall>u. black_scholes S K T r sigma option_type u = (Inr (NpFloat c), u)"
    by (simp add: black_scholes_def)
  then show ?thesis by (simp only: False if_False)
qed

theorem black_scholes_deterministic_witness:
  "(\<exists>e. \<forall>u. black_scholes PyNone (NpFloat (Fin 100)) (PyFloat (Fin 1)) (PyFloat (Fin 0.015))
              (PyFloat (Fin 0.2)) ''call'' u =
            (Inr (PyFloat NaN), u @ [St_error_black_scholes e])) \<and>
   (\<exists>c. \<forall>u. black_scholes (NpFloat (Fin 100)) (NpFloat (Fin 100)) (PyFloat (Fin 1))
              (PyFloat (Fin 0.015)) (PyFloat (Fin 0.2)) ''call'' u = (Inr (NpFloat c), u))"
  using black_scholes_deterministic [of PyNone "NpFloat (Fin 100)" "PyFloat (Fin 1)"
      "PyFloat (Fin 0.015)" "PyFloat (Fin 0.2)" "''call''"]
    black_scholes_deterministic [of "NpFloat (Fin 100)" "NpFloat (Fin 100)" "PyFloat (Fin 1)"
      "PyFloat (Fin 0.015)" "PyFloat (Fin 0.2)" "''call''"]
  by (simp add: dbl_max_def power2_eq_square)

section \<open>The payoff curve\<close>

subsection \<open>The sample grid\<close>




subsection \<open>The payoff\<close>






section \<open>The normal distribution function\<close>

lemma gauss_term_bound: "\<bar>gauss_term x n\<bar> \<le> \<bar>x\<bar> * (inverse (fact n) * (x\<^sup>2 / 2) ^ n)"
proof -
  have "\<bar>gauss_term x n\<bar> = \<bar>x\<bar> * ((x\<^sup>2) ^ n / (2 ^ n * fact n)) / real (2 * n + 1)"
    by (simp add: gauss_term_def abs_mult power_abs power_mult power_even_abs)
  also have "\<dots> \<le> \<bar>x\<bar> * ((x\<^sup>2) ^ n / (2 ^ n * fact n)) / 1"
    by (intro divide_left_mono mult_nonneg_nonneg) simp_all
  also have "\<dots> = \<bar>x\<bar> * (inverse (fact n) * (x\<^sup>2 / 2) ^ n)"
    by (simp add: power_divide field_simps)
  finally show ?thesis .
qed

lemma summable_gauss_term: "summable (gauss_term x)"
proof (rule summable_comparison_test')
  show "summable (\<lambda>n. \<bar>x\<bar> * (inverse (fact n) * (x\<^sup>2 / 2) ^ n))"
    by (intro summable_mult summable_exp)
  show "norm (gauss_term x n) \<le> \<bar>x\<bar> * (inverse (fact n) * (x\<^sup>2 / 2) ^ n)" for n
    using gauss_term_bound [of x n] by simp
qed

lemma gauss_int_sums: "gauss_term x sums gauss_int x"
  unfolding gauss_int_def by (rule summable_sums [OF summable_gauss_term])

lemma gauss_int_0: "gauss_int 0 = 0"
  by (simp add: gauss_int_def gauss_term_def)

lemma gauss_int_minus: "gauss_int (- x) = - gauss_int x"
proof -
  have "gauss_term (- x) n = - gauss_term x n" for n
    by (simp add: gauss_term_def)
  then have "gauss_int (- x) = (\<Sum>n. - gauss_term x n)"
    by (simp add: gauss_int_def)
  also have "\<dots> = - gauss_int x"
    unfolding gauss_int_def by (rule suminf_minus [OF summable_gauss_term])
  finally show ?thesis .
qed

lemma gauss_coeff_sums: "(\<lambda>k. gauss_coeff k * x ^ k) sums gauss_int x"
proof -
  have "(\<lambda>k. if even k then 0 else gauss_term x ((k - 1) div 2)) sums gauss_int x"
    by (rule sums_if' [OF gauss_int_sums])
  moreover have "(if even k then 0 else gauss_term x ((k - 1) div 2)) = gauss_coeff k * x ^ k"
    for k
  proof (cases "even k")
    case True
    then show ?thesis by (simp add: gauss_coeff_def)
  next
    case False
    then obtain n where k: "k = 2 * n + 1" by (auto elim: oddE)
    show ?thesis by (simp add: k gauss_coeff_def gauss_term_def)
  qed
  ultimately show ?thesis by simp
qed

lemma gauss_int_powser: "gauss_int = (\<lambda>x. \<Sum>k. gauss_coeff k * x ^ k)"
  using gauss_coeff_sums by (auto simp: sums_iff)

lemma diffs_gauss_coeff_sums: "(\<lambda>k. diffs gauss_coeff k * x ^ k) sums exp (- (x\<^sup>2) / 2)"
proof -
  have e: "(\<lambda>n. inverse (fact n) * (- (x\<^sup>2) / 2) ^ n) sums exp (- (x\<^sup>2) / 2)"
    using exp_converges [of "- (x\<^sup>2) / 2"] by (simp add: field_simps)
  have z: "(\<lambda>n. 0 :: real) sums 0" by simp
  have "(\<lambda>k. if even k then inverse (fact (k div 2)) * (- (x\<^sup>2) / 2) ^ (k div 2) else 0)
          sums (0 + exp (- (x\<^sup>2) / 2))"
    by (rule sums_if [OF z e])
  moreover have "(if even k then inverse (fact (k div 2)) * (- (x\<^sup>2) / 2) ^ (k div 2) else 0)
      = diffs gauss_coeff k * x ^ k" for k
  proof (cases "even k")
    case False
    then show ?thesis by (simp add: diffs_def gauss_coeff_def)
  next
    case True
    then obtain n where k: "k = 2 * n" by (auto elim: evenE)
    have "(- (x\<^sup>2) / 2) ^ n = ((- 1) * (x\<^sup>2 / 2)) ^ n"
      by simp
    also have "\<dots> = (- 1) ^ n * x ^ (2 * n) / 2 ^ n"
      unfolding power_mult_distrib by (simp add: power_divide power_mult)
    finally have p: "(- (x\<^sup>2) / 2) ^ n = (- 1) ^ n * x ^ (2 * n) / 2 ^ n" .
    have "gauss_coeff (Suc (2 * n)) = (- 1) ^ n / (2 ^ n * fact n * real (Suc (2 * n)))"
      by (simp add: gauss_coeff_def)
    then have dc: "diffs gauss_coeff (2 * n) = (- 1) ^ n / (2 ^ n * fact n)"
      unfolding diffs_def by (simp del: of_nat_Suc of_nat_add of_nat_mult)
    have "(if even k then inverse (fact (k div 2)) * (- (x\<^sup>2) / 2) ^ (k div 2) else 0)
        = inverse (fact n) * (- (x\<^sup>2) / 2) ^ n"
      by (simp add: k)
    also have "\<dots> = inverse (fact n) * ((- 1) ^ n * x ^ (2 * n) / 2 ^ n)"
      by (simp only: p)
    also have "\<dots> = diffs gauss_coeff k * x ^ k"
      unfolding k dc by (simp add: field_simps)
    finally show ?thesis .
  qed
  ultimately show ?thesis by simp
qed

lemma DERIV_gauss_int: "DERIV gauss_int x :> exp (- (x\<^sup>2) / 2)"
proof -
  have "\<And>y. summable (\<lambda>k. gauss_coeff k * y ^ k)"
    using gauss_coeff_sums by (auto simp: sums_iff)
  then have "DERIV (\<lambda>x. \<Sum>k. gauss_coeff k * x ^ k) x :> (\<Sum>k. diffs gauss_coeff k * x ^ k)"
    by (rule termdiffs_strong_converges_everywhere)
  moreover have "(\<Sum>k. diffs gauss_coeff k * x ^ k) = exp (- (x\<^sup>2) / 2)"
    using diffs_gauss_coeff_sums [of x] by (simp add: sums_iff)
  ultimately show ?thesis by (simp add: gauss_int_powser)
qed


lemma Phi_minus: "Phi (- x) = 1 - Phi x"
  by (simp add: Phi_def gauss_int_minus)

lemma Phi_0: "Phi 0 = 1 / 2"
  by (simp add: Phi_def gauss_int_0)

section \<open>Put-call parity\<close>

lemma spec_parity:
  "spec_call s k t \<rho> \<sigma> - spec_put s k t \<rho> \<sigma> = s - k * exp (- \<rho> * t)"
  by (simp add: spec_call_def spec_put_def Phi_minus algebra_simps)

text \<open>
  C6, as the specification states it, fails: at \<open>S = 100\<close>, \<open>K = 100\<close>, \<open>T = 1\<close>,
  \<open>r = 0.015\<close> and the Python float \<open>sigma = 1e200\<close>, a valid input, \<^verbatim>\<open>sigma ** 2\<close>
  raises \<^verbatim>\<open>OverflowError\<close> for the call and for the put; both prices are NaN, and so is
  their difference, which is not \<open>S - K * exp (- r T)\<close> within any tolerance.
\<close>

theorem put_call_parity_fails_at_overflow:
  "py_sub (fst (black_scholes (NpFloat (Fin 100)) (NpFloat (Fin 100)) (PyFloat (Fin 1))
                  (PyFloat (Fin 0.015)) (PyFloat (Fin (10 ^ 200))) ''call'' []))
          (fst (black_scholes (NpFloat (Fin 100)) (NpFloat (Fin 100)) (PyFloat (Fin 1))
                  (PyFloat (Fin 0.015)) (PyFloat (Fin (10 ^ 200))) ''put'' [])) =
     Inr (PyFloat NaN) \<and>
   \<not> evals (Inr (PyFloat NaN)) (100 - 100 * exp (- 0.015 * 1))"
  unfolding black_scholes_at_overflow
  by (simp add: py_sub_def lift2_def fl_sub_def fl_add_def evals_def)

text \<open>
  C6, amended. For finite inputs with \<open>S > 0\<close>, \<open>K > 0\<close>, \<open>T > 0\<close> and \<open>sigma > 0\<close> for
  which no intermediate result of the formula leaves the range of doubles, the call
  price and the put price \<^verbatim>\<open>black_scholes\<close> returns for the same \<open>S\<close>, \<open>K\<close>, \<open>T\<close>, \<open>r\<close>,
  \<open>sigma\<close> differ by \<open>S - K * exp (- r T)\<close>. The prices are the exact values of the
  formula the code computes, for which the two sides are equal; the doubles the program
  returns differ from them by rounding, which the tolerance of the claim is for.
\<close>

theorem put_call_parity:
  assumes "is_float S s" "is_float K k" "is_float T t" "is_float r \<rho>" "is_float sigma \<sigma>"
    and "0 < s" "0 < k" "0 < t" "0 < \<sigma>"
    and "bs_in_range ''call'' s k t \<rho> \<sigma>" "bs_in_range ''put'' s k t \<rho> \<sigma>"
  shows "\<exists>c p. returns (black_scholes S K T r sigma ''call'' u) c \<and>
               returns (black_scholes S K T r sigma ''put'' u) p \<and>
               c - p = s - k * exp (- \<rho> * t)"
  using black_scholes_in_range [OF assms(1-10), of u]
    black_scholes_in_range [OF assms(1-9) assms(11), of u] spec_parity [of s k t \<rho> \<sigma>]
  by (intro exI [of _ "spec_call s k t \<rho> \<sigma>"] exI [of _ "spec_put s k t \<rho> \<sigma>"]) simp

section \<open>The distribution function lies between 0 and 1\<close>

lemma DERIV_cos_int: "DERIV (cos_int m) x :> cos x ^ m"
proof (induction m x rule: cos_int.induct)
  case (1 x)
  have "cos_int 0 = (\<lambda>x. x)" by (rule ext) simp
  then show ?case by simp
next
  case (2 x)
  have "cos_int (Suc 0) = sin" by (rule ext) simp
  then show ?case by (auto intro!: derivative_eq_intros)
next
  case (3 m x)
  have eq: "cos_int (Suc (Suc m)) =
      (\<lambda>x. (real (Suc m) * cos_int m x + cos x ^ Suc m * sin x) / real (Suc (Suc m)))"
    by (rule ext) simp
  have p: "DERIV (\<lambda>x. cos x ^ Suc m) x :> real (Suc m) * (- sin x * cos x ^ m)"
    using DERIV_power [OF DERIV_cos [of x], where n = "Suc m"] by (simp del: power_Suc of_nat_Suc)
  have "DERIV (\<lambda>x. (real (Suc m) * cos_int m x + cos x ^ Suc m * sin x) / real (Suc (Suc m))) x
          :> (real (Suc m) * cos x ^ m
              + (real (Suc m) * (- sin x * cos x ^ m) * sin x + cos x * cos x ^ Suc m))
             / real (Suc (Suc m))"
    by (intro DERIV_cdivide DERIV_add DERIV_cmult DERIV_mult "3.IH" p DERIV_sin)
  also have "(real (Suc m) * cos x ^ m
              + (real (Suc m) * (- sin x * cos x ^ m) * sin x + cos x * cos x ^ Suc m))
             / real (Suc (Suc m)) = cos x ^ Suc (Suc m)"
  proof -
    have "real (Suc m) * cos x ^ m
            + (real (Suc m) * (- sin x * cos x ^ m) * sin x + cos x * cos x ^ Suc m)
          = real (Suc m) * cos x ^ m * (1 - (sin x)\<^sup>2) + cos x ^ Suc (Suc m)"
      by (simp add: algebra_simps power2_eq_square del: of_nat_Suc)
    also have "1 - (sin x)\<^sup>2 = (cos x)\<^sup>2"
      by (simp add: cos_squared_eq)
    also have "real (Suc m) * cos x ^ m * (cos x)\<^sup>2 + cos x ^ Suc (Suc m)
          = real (Suc (Suc m)) * cos x ^ Suc (Suc m)"
      by (simp add: algebra_simps power2_eq_square)
    finally show ?thesis by (simp del: of_nat_Suc power_Suc)
  qed
  finally show ?case by (simp only: eq)
qed

lemma cos_int_0: "cos_int m 0 = 0"
  by (induction m "0 :: real" rule: cos_int.induct) simp_all

lemma cos_int_pi_half: "cos_int m (pi / 2) = wallis m"
  by (induction m "pi / 2" rule: cos_int.induct) (simp_all del: of_nat_Suc)

lemma wallis_pos: "0 < wallis m"
  by (induction m rule: wallis.induct) simp_all

lemma wallis_prod: "wallis m * wallis (Suc m) = pi / (2 * real (Suc m))"
proof (induction m)
  case 0
  show ?case by simp
next
  case (Suc m)
  have "wallis (Suc m) * wallis (Suc (Suc m))
      = real (Suc m) / real (Suc (Suc m)) * (wallis m * wallis (Suc m))"
    by (simp del: of_nat_Suc)
  also have "\<dots> = pi / (2 * real (Suc (Suc m)))"
    unfolding Suc.IH by (simp del: of_nat_Suc)
  finally show ?case .
qed

lemma cos_int_mono:
  assumes "0 \<le> a" "a \<le> b" "b \<le> pi / 2"
  shows "cos_int m a \<le> cos_int m b"
proof -
  have der: "\<exists>y. DERIV (cos_int m) x :> y \<and> 0 \<le> y" if "a \<le> x" "x \<le> b" for x
  proof -
    have "0 \<le> cos x" using assms that by (intro cos_ge_zero) simp_all
    then show ?thesis
      using DERIV_cos_int [of m x] by (intro exI [of _ "cos x ^ m"]) simp
  qed
  show ?thesis
    by (rule DERIV_nonneg_imp_nondecreasing [of a b "cos_int m", OF assms(2) der])
qed

lemma wallis_antimono: "wallis (Suc m) \<le> wallis m"
proof -
  let ?D = "\<lambda>x. cos_int m x - cos_int (Suc m) x"
  have der: "\<exists>y. DERIV ?D x :> y \<and> 0 \<le> y" if x: "0 \<le> x" "x \<le> pi / 2" for x
  proof -
    from x have c: "0 \<le> cos x" by (intro cos_ge_zero) simp_all
    have "DERIV ?D x :> cos x ^ m - cos x ^ Suc m"
      by (intro DERIV_diff DERIV_cos_int)
    moreover have "0 \<le> cos x ^ m - cos x ^ Suc m"
    proof -
      have "cos x ^ m - cos x ^ Suc m = cos x ^ m * (1 - cos x)" by (simp add: algebra_simps)
      also have "0 \<le> \<dots>" using c by (intro mult_nonneg_nonneg) simp_all
      finally show ?thesis .
    qed
    ultimately show ?thesis by blast
  qed
  have "?D 0 \<le> ?D (pi / 2)"
    by (rule DERIV_nonneg_imp_nondecreasing [of 0 "pi / 2" ?D, OF _ der]) simp_all
  then show ?thesis by (simp add: cos_int_0 cos_int_pi_half)
qed

lemma wallis_square: "(wallis (Suc m))\<^sup>2 \<le> pi / (2 * real (Suc m))"
proof -
  have "(wallis (Suc m))\<^sup>2 = wallis (Suc m) * wallis (Suc m)" by (simp add: power2_eq_square)
  also have "\<dots> \<le> wallis m * wallis (Suc m)"
    using wallis_antimono [of m] wallis_pos [of "Suc m"] by (intro mult_right_mono) simp_all
  also have "\<dots> = pi / (2 * real (Suc m))" by (rule wallis_prod)
  finally show ?thesis .
qed

lemma gauss_int_mono: "a \<le> b \<Longrightarrow> gauss_int a \<le> gauss_int b"
proof -
  assume ab: "a \<le> b"
  have der: "\<exists>y. DERIV gauss_int x :> y \<and> 0 \<le> y" for x
    using DERIV_gauss_int [of x] by (intro exI [of _ "exp (- (x\<^sup>2) / 2)"]) simp
  show ?thesis
    by (rule DERIV_nonneg_imp_nondecreasing [of a b gauss_int, OF ab der])
qed

lemma gauss_int_nonneg: "0 \<le> y \<Longrightarrow> 0 \<le> gauss_int y"
  using gauss_int_mono [of 0 y] by (simp add: gauss_int_0)

lemma gauss_int_le_wallis:
  assumes x: "0 \<le> x" and c: "c = sqrt (2 * real (Suc j))"
  shows "gauss_int (c * x) / c \<le> wallis (2 * j)"
proof -
  have cpos: "0 < c" unfolding c by simp
  have c2: "c\<^sup>2 = 2 * real (Suc j)" unfolding c by simp
  let ?H = "\<lambda>x. cos_int (2 * j) (arctan x) - gauss_int (c * x) / c"
  have der: "\<exists>y. DERIV ?H z :> y \<and> 0 \<le> y" for z
  proof -
    have d1: "DERIV (\<lambda>x. cos_int (2 * j) (arctan x)) z
                :> cos (arctan z) ^ (2 * j) * inverse (1 + z\<^sup>2)"
      by (rule DERIV_chain2 [OF DERIV_cos_int DERIV_arctan])
    have "DERIV (\<lambda>x. c * x) z :> c * 1"
      by (intro DERIV_cmult DERIV_ident)
    then have "DERIV (\<lambda>x. gauss_int (c * x)) z :> exp (- ((c * z)\<^sup>2) / 2) * (c * 1)"
      by (rule DERIV_chain2 [OF DERIV_gauss_int])
    then have d2: "DERIV (\<lambda>x. gauss_int (c * x) / c) z :> exp (- ((c * z)\<^sup>2) / 2) * (c * 1) / c"
      by (rule DERIV_cdivide)
    have d: "DERIV ?H z :> cos (arctan z) ^ (2 * j) * inverse (1 + z\<^sup>2)
                            - exp (- ((c * z)\<^sup>2) / 2) * (c * 1) / c"
      by (rule DERIV_diff [OF d1 d2])
    have pos: "0 < 1 + z\<^sup>2" by (simp add: add_pos_nonneg)
    have "(cos (arctan z))\<^sup>2 = inverse (1 + z\<^sup>2)"
      using pos by (simp add: cos_arctan power_divide inverse_eq_divide)
    then have "cos (arctan z) ^ (2 * j) = inverse (1 + z\<^sup>2) ^ j"
      by (simp add: power_mult)
    then have e1: "cos (arctan z) ^ (2 * j) * inverse (1 + z\<^sup>2) = inverse ((1 + z\<^sup>2) ^ Suc j)"
      by (simp add: power_inverse)
    have "(c * z)\<^sup>2 / 2 = real (Suc j) * z\<^sup>2"
      by (simp add: power_mult_distrib c2)
    then have "exp (- ((c * z)\<^sup>2) / 2) = inverse (exp (real (Suc j) * z\<^sup>2))"
      by (simp add: exp_minus)
    also have "\<dots> = inverse (exp (z\<^sup>2) ^ Suc j)"
      by (simp only: exp_of_nat_mult)
    finally have e2: "exp (- ((c * z)\<^sup>2) / 2) * (c * 1) / c = inverse (exp (z\<^sup>2) ^ Suc j)"
      using cpos by simp
    have "(1 + z\<^sup>2) ^ Suc j \<le> exp (z\<^sup>2) ^ Suc j"
      using pos by (intro power_mono exp_ge_add_one_self) simp
    then have "inverse (exp (z\<^sup>2) ^ Suc j) \<le> inverse ((1 + z\<^sup>2) ^ Suc j)"
      using pos by (intro le_imp_inverse_le zero_less_power)
    with d show ?thesis unfolding e1 e2
      by (intro exI [of _ "inverse ((1 + z\<^sup>2) ^ Suc j) - inverse (exp (z\<^sup>2) ^ Suc j)"]) simp
  qed
  have "?H 0 \<le> ?H x"
    by (rule DERIV_nonneg_imp_nondecreasing [of 0 x ?H, OF x der])
  then have "gauss_int (c * x) / c \<le> cos_int (2 * j) (arctan x)"
    by (simp add: cos_int_0 gauss_int_0)
  also have "\<dots> \<le> cos_int (2 * j) (pi / 2)"
    using x arctan_ubound [of x] by (intro cos_int_mono) simp_all
  finally show ?thesis by (simp add: cos_int_pi_half)
qed

lemma gauss_int_square_bound:
  assumes y: "0 \<le> y"
  shows "(gauss_int y)\<^sup>2 \<le> pi / 2 + (pi / 2) / real (Suc j)"
proof -
  define c where "c = sqrt (2 * real (Suc (Suc j)))"
  have cpos: "0 < c" unfolding c_def by simp
  have c2: "c\<^sup>2 = 2 * real (Suc (Suc j))" unfolding c_def by simp
  have idx: "2 * Suc j = Suc (2 * j + 1)" by simp
  have "gauss_int (c * (y / c)) / c \<le> wallis (2 * Suc j)"
    using y cpos by (intro gauss_int_le_wallis [OF _ c_def]) simp
  then have "gauss_int y \<le> c * wallis (2 * Suc j)"
    using cpos by (simp add: field_simps)
  moreover have "0 \<le> c * wallis (2 * Suc j)"
    by (rule less_imp_le [OF mult_pos_pos [OF cpos wallis_pos]])
  ultimately have "(gauss_int y)\<^sup>2 \<le> (c * wallis (2 * Suc j))\<^sup>2"
    using gauss_int_nonneg [OF y] by (intro power_mono) simp_all
  also have "\<dots> = c\<^sup>2 * (wallis (Suc (2 * j + 1)))\<^sup>2"
    unfolding idx by (rule power_mult_distrib)
  also have "\<dots> \<le> c\<^sup>2 * (pi / (2 * real (Suc (2 * j + 1))))"
    by (intro mult_left_mono wallis_square) simp
  also have "\<dots> = pi / 2 + (pi / 2) / real (Suc j)"
    unfolding c2 by (simp add: field_simps)
  finally show ?thesis .
qed

lemma gauss_int_square_le: "(gauss_int y)\<^sup>2 \<le> pi / 2"
proof -
  have nonneg: "(gauss_int y)\<^sup>2 \<le> pi / 2" if y: "0 \<le> y" for y
  proof (rule field_le_epsilon)
    fix e :: real assume e: "0 < e"
    obtain n :: nat where n: "(pi / 2) / e < real n"
      using reals_Archimedean2 by blast
    have "(pi / 2) / real (Suc n) \<le> e"
    proof -
      have "pi / 2 < real n * e" using n e by (simp add: field_simps)
      also have "\<dots> \<le> real (Suc n) * e" using e by (intro mult_right_mono) simp_all
      finally show ?thesis by (simp add: field_simps)
    qed
    with gauss_int_square_bound [OF y, of n] show "(gauss_int y)\<^sup>2 \<le> pi / 2 + e"
      by linarith
  qed
  show ?thesis
  proof (cases "0 \<le> y")
    case True
    then show ?thesis by (rule nonneg)
  next
    case False
    then have "(gauss_int (- y))\<^sup>2 \<le> pi / 2" by (intro nonneg) simp
    then show ?thesis by (simp add: gauss_int_minus)
  qed
qed

lemma gauss_int_abs_le: "\<bar>gauss_int y\<bar> \<le> sqrt (2 * pi) / 2"
proof -
  have "\<bar>gauss_int y\<bar> = sqrt ((gauss_int y)\<^sup>2)" by simp
  also have "\<dots> \<le> sqrt (pi / 2)"
    using gauss_int_square_le [of y] by (simp only: real_sqrt_le_iff)
  also have "pi / 2 = (2 * pi) / 2\<^sup>2" by simp
  also have "sqrt ((2 * pi) / 2\<^sup>2) = sqrt (2 * pi) / 2"
    by (simp only: real_sqrt_divide) simp
  finally show ?thesis .
qed

lemma Phi_bounds: "0 \<le> Phi x" "Phi x \<le> 1"
proof -
  define s where "s = sqrt (2 * pi)"
  have s: "0 < s" unfolding s_def by simp
  from gauss_int_abs_le [of x] have g: "gauss_int x \<le> s / 2" "- (s / 2) \<le> gauss_int x"
    unfolding s_def by (simp_all add: abs_le_iff)
  have "gauss_int x / s \<le> (s / 2) / s"
    using g(1) s by (intro divide_right_mono) simp_all
  then have up: "gauss_int x / s \<le> 1 / 2" using s by simp
  have "(- (s / 2)) / s \<le> gauss_int x / s"
    using g(2) s by (intro divide_right_mono) simp_all
  then have lo: "- (1 / 2) \<le> gauss_int x / s" using s by simp
  from lo show "0 \<le> Phi x" unfolding Phi_def s_def by linarith
  from up show "Phi x \<le> 1" unfolding Phi_def s_def by linarith
qed

section \<open>Monotonicity of the price\<close>
















section \<open>The reference value\<close>

subsection \<open>Numerical bounds\<close>

lemma arctan_lower:
  assumes "0 \<le> x"
  shows "x - x ^ 3 / 3 \<le> arctan x"
proof -
  let ?f = "\<lambda>x. arctan x - (x - x ^ 3 / 3)"
  have der: "\<exists>y. DERIV ?f z :> y \<and> 0 \<le> y" for z :: real
  proof -
    have d: "DERIV ?f z :> inverse (1 + z\<^sup>2) - (1 - z\<^sup>2)"
      by (auto intro!: derivative_eq_intros simp: power2_eq_square)
    have pos: "0 < 1 + z\<^sup>2" by (simp add: add_pos_nonneg)
    have "(1 - z\<^sup>2) * (1 + z\<^sup>2) = 1 - (z\<^sup>2)\<^sup>2"
      by (simp add: algebra_simps power2_eq_square)
    also have "\<dots> \<le> 1" by simp
    finally have "1 - z\<^sup>2 \<le> 1 / (1 + z\<^sup>2)"
      using pos by (simp only: pos_le_divide_eq)
    then have "1 - z\<^sup>2 \<le> inverse (1 + z\<^sup>2)"
      by (simp only: inverse_eq_divide)
    with d show ?thesis by (intro exI [of _ "inverse (1 + z\<^sup>2) - (1 - z\<^sup>2)"]) simp
  qed
  have "?f 0 \<le> ?f x"
    by (rule DERIV_nonneg_imp_nondecreasing [of 0 x ?f, OF assms der])
  then show ?thesis by simp
qed

lemma arctan_upper:
  assumes "0 \<le> x"
  shows "arctan x \<le> x - x ^ 3 / 3 + x ^ 5 / 5"
proof -
  let ?f = "\<lambda>x. x - x ^ 3 / 3 + x ^ 5 / 5 - arctan x"
  have der: "\<exists>y. DERIV ?f z :> y \<and> 0 \<le> y" for z :: real
  proof -
    have d: "DERIV ?f z :> 1 - z ^ 2 + z ^ 4 - inverse (1 + z\<^sup>2)"
      by (auto intro!: derivative_eq_intros)
    have pos: "0 < 1 + z\<^sup>2" by (simp add: add_pos_nonneg)
    have "0 \<le> (z ^ 3)\<^sup>2" by simp
    then have "1 \<le> 1 + (z ^ 3)\<^sup>2" by simp
    also have "1 + (z ^ 3)\<^sup>2 = (1 - z ^ 2 + z ^ 4) * (1 + z\<^sup>2)"
      by algebra
    finally have "1 / (1 + z\<^sup>2) \<le> 1 - z ^ 2 + z ^ 4"
      using pos by (simp only: pos_divide_le_eq)
    then have "inverse (1 + z\<^sup>2) \<le> 1 - z ^ 2 + z ^ 4"
      by (simp only: inverse_eq_divide)
    with d show ?thesis
      by (intro exI [of _ "1 - z ^ 2 + z ^ 4 - inverse (1 + z\<^sup>2)"]) simp
  qed
  have "?f 0 \<le> ?f x"
    by (rule DERIV_nonneg_imp_nondecreasing [of 0 x ?f, OF assms der])
  then show ?thesis by simp
qed

lemma pi_bounds: "3.141 < pi" "pi < 3.142"
proof -
  have l1: "(1 / 7 :: real) - (1 / 7) ^ 3 / 3 \<le> arctan (1 / 7)"
    by (rule arctan_lower) simp
  have l2: "(3 / 79 :: real) - (3 / 79) ^ 3 / 3 \<le> arctan (3 / 79)"
    by (rule arctan_lower) simp
  have u1: "arctan (1 / 7) \<le> (1 / 7 :: real) - (1 / 7) ^ 3 / 3 + (1 / 7) ^ 5 / 5"
    by (rule arctan_upper) simp
  have u2: "arctan (3 / 79) \<le> (3 / 79 :: real) - (3 / 79) ^ 3 / 3 + (3 / 79) ^ 5 / 5"
    by (rule arctan_upper) simp
  have "pi = 4 * (5 * arctan (1 / 7) + 2 * arctan (3 / 79))"
    using machin_Euler by simp
  with l1 l2 u1 u2 show "3.141 < pi" "pi < 3.142"
    by (simp_all add: power3_eq_cube power_def) 
qed

lemma sqrt_2pi_bounds: "2.506 < sqrt (2 * pi)" "sqrt (2 * pi) < 2.507"
proof -
  have "(2.506 :: real)\<^sup>2 < 2 * pi" using pi_bounds(1) by (simp add: power2_eq_square)
  then show "2.506 < sqrt (2 * pi)" by (rule real_less_rsqrt)
  have "2 * pi < (2.507 :: real)\<^sup>2" using pi_bounds(2) by (simp add: power2_eq_square)
  then show "sqrt (2 * pi) < 2.507" by (intro real_less_lsqrt) simp_all
qed

lemma exp_minus_upper:
  fixes u :: real
  assumes "0 \<le> u"
  shows "exp (- u) \<le> 1 - u + u\<^sup>2 / 2"
proof -
  let ?f = "\<lambda>u :: real. 1 - u + u\<^sup>2 / 2 - exp (- u)"
  have der: "\<exists>y. DERIV ?f z :> y \<and> 0 \<le> y" if "0 \<le> z" for z :: real
  proof -
    have d: "DERIV ?f z :> - 1 + z + exp (- z)"
      by (auto intro!: derivative_eq_intros)
    have "0 \<le> - 1 + z + exp (- z)" using exp_ge_add_one_self [of "- z"] by simp
    with d show ?thesis by blast
  qed
  have "?f 0 \<le> ?f u"
    by (rule DERIV_nonneg_imp_nondecreasing [of 0 u ?f, OF assms]) (use der in simp)
  then show ?thesis by simp
qed

lemma gauss_int_lower:
  assumes "0 \<le> x"
  shows "x - x ^ 3 / 6 \<le> gauss_int x"
proof -
  let ?f = "\<lambda>x. gauss_int x - (x - x ^ 3 / 6)"
  have der: "\<exists>y. DERIV ?f z :> y \<and> 0 \<le> y" for z :: real
  proof -
    have p: "DERIV (\<lambda>x. x - x ^ 3 / 6) z :> 1 - z\<^sup>2 / 2"
      by (auto intro!: derivative_eq_intros simp: power2_eq_square)
    have d: "DERIV ?f z :> exp (- (z\<^sup>2) / 2) - (1 - z\<^sup>2 / 2)"
      by (rule DERIV_diff [OF DERIV_gauss_int p])
    have "0 \<le> exp (- (z\<^sup>2) / 2) - (1 - z\<^sup>2 / 2)"
      using exp_ge_add_one_self [of "- (z\<^sup>2) / 2"] by simp
    with d show ?thesis by blast
  qed
  have "?f 0 \<le> ?f x"
    by (rule DERIV_nonneg_imp_nondecreasing [of 0 x ?f, OF assms der])
  then show ?thesis by (simp add: gauss_int_0)
qed

lemma gauss_int_upper:
  assumes "0 \<le> x"
  shows "gauss_int x \<le> x - x ^ 3 / 6 + x ^ 5 / 40"
proof -
  let ?f = "\<lambda>x. x - x ^ 3 / 6 + x ^ 5 / 40 - gauss_int x"
  have der: "\<exists>y. DERIV ?f z :> y \<and> 0 \<le> y" for z :: real
  proof -
    have p: "DERIV (\<lambda>x. x - x ^ 3 / 6 + x ^ 5 / 40) z :> 1 - z ^ 2 / 2 + z ^ 4 / 8"
      by (auto intro!: derivative_eq_intros)
    have d: "DERIV ?f z :> 1 - z ^ 2 / 2 + z ^ 4 / 8 - exp (- (z\<^sup>2) / 2)"
      by (rule DERIV_diff [OF p DERIV_gauss_int])
    have "(z\<^sup>2)\<^sup>2 = z ^ 4" by (simp add: power2_eq_square power4_eq_xxxx)
    then have "(z\<^sup>2 / 2)\<^sup>2 / 2 = z ^ 4 / 8" by (simp add: power_divide)
    then have "0 \<le> 1 - z ^ 2 / 2 + z ^ 4 / 8 - exp (- (z\<^sup>2) / 2)"
      using exp_minus_upper [of "z\<^sup>2 / 2"] by simp
    with d show ?thesis by blast
  qed
  have "?f 0 \<le> ?f x"
    by (rule DERIV_nonneg_imp_nondecreasing [of 0 x ?f, OF assms der])
  then show ?thesis by (simp add: gauss_int_0)
qed

subsection \<open>The price at the reference input\<close>

lemma reference_d1_d2:
  "spec_d1 100 100 1 0.015 0.2 = 0.175" "spec_d2 100 100 1 0.015 0.2 = - 0.025"
  by (simp_all add: spec_d1_def spec_d2_def power2_eq_square)

lemma reference_Phi_d1: "0.56944 \<le> Phi 0.175" "Phi 0.175 \<le> 0.56949"
proof -
  define Z where "Z = sqrt (2 * pi)"
  define g where "g = gauss_int 0.175"
  have Z: "2.506 < Z" "Z < 2.507" using sqrt_2pi_bounds by (simp_all add: Z_def)
  have "(0.175 :: real) - 0.175 ^ 3 / 6 \<le> g"
    unfolding g_def by (rule gauss_int_lower) simp
  then have lo: "0.1741 \<le> g" by (simp add: power3_eq_cube)
  have "g \<le> (0.175 :: real) - 0.175 ^ 3 / 6 + 0.175 ^ 5 / 40"
    unfolding g_def by (rule gauss_int_upper) simp
  then have hi: "g \<le> 0.17412" by (simp add: power_def)
  have "0.06944 * Z \<le> g" using Z lo by simp
  then have A_lo: "0.06944 \<le> g / Z" using Z by (simp add: pos_le_divide_eq)
  have "g \<le> 0.06949 * Z" using Z hi by simp
  then have A_hi: "g / Z \<le> 0.06949" using Z by (simp add: pos_divide_le_eq)
  define A where "A = g / Z"
  have "Phi 0.175 = 1 / 2 + A" by (simp add: Phi_def Z_def g_def A_def)
  moreover have "0.06944 \<le> A" "A \<le> 0.06949" using A_lo A_hi by (simp_all only: A_def)
  ultimately show "0.56944 \<le> Phi 0.175" "Phi 0.175 \<le> 0.56949" by simp_all
qed

lemma reference_Phi_d2: "0.50996 \<le> Phi 0.025" "Phi 0.025 \<le> 0.50998"
proof -
  define Z where "Z = sqrt (2 * pi)"
  define g where "g = gauss_int 0.025"
  have Z: "2.506 < Z" "Z < 2.507" using sqrt_2pi_bounds by (simp_all add: Z_def)
  have "(0.025 :: real) - 0.025 ^ 3 / 6 \<le> g"
    unfolding g_def by (rule gauss_int_lower) simp
  then have lo: "0.02499 \<le> g" by (simp add: power3_eq_cube)
  have "g \<le> (0.025 :: real) - 0.025 ^ 3 / 6 + 0.025 ^ 5 / 40"
    unfolding g_def by (rule gauss_int_upper) simp
  then have hi: "g \<le> 0.025" by (simp add: power_def)
  have "0.00996 * Z \<le> g" using Z lo by simp
  then have B_lo: "0.00996 \<le> g / Z" using Z by (simp add: pos_le_divide_eq)
  have "g \<le> 0.00998 * Z" using Z hi by simp
  then have B_hi: "g / Z \<le> 0.00998" using Z by (simp add: pos_divide_le_eq)
  define B where "B = g / Z"
  have "Phi 0.025 = 1 / 2 + B" by (simp add: Phi_def Z_def g_def B_def)
  moreover have "0.00996 \<le> B" "B \<le> 0.00998" using B_lo B_hi by (simp_all only: B_def)
  ultimately show "0.50996 \<le> Phi 0.025" "Phi 0.025 \<le> 0.50998" by simp_all
qed

lemma reference_discount: "0.985 \<le> exp (- 0.015 :: real)" "exp (- 0.015 :: real) \<le> 0.98512"
proof -
  show "0.985 \<le> exp (- 0.015 :: real)"
    using exp_ge_add_one_self [of "- 0.015 :: real"] by simp
  show "exp (- 0.015 :: real) \<le> 0.98512"
    using exp_minus_upper [of "0.015"] by (simp add: power2_eq_square)
qed

lemma reference_call: "8.669 < spec_call 100 100 1 0.015 0.2" "spec_call 100 100 1 0.015 0.2 < 8.683"
proof -
  define E where "E = exp (- 0.015 :: real)"
  define P1 where "P1 = Phi 0.175"
  define Q where "Q = Phi (- 0.025)"
  have E: "0.985 \<le> E" "E \<le> 0.98512" using reference_discount by (simp_all add: E_def)
  have P1: "0.56944 \<le> P1" "P1 \<le> 0.56949" using reference_Phi_d1 by (simp_all add: P1_def)
  have Q: "0.49002 \<le> Q" "Q \<le> 0.49004"
    using reference_Phi_d2 by (simp_all add: Q_def Phi_minus)
  define D where "D = E * Q"
  have c: "spec_call 100 100 1 0.015 0.2 = 100 * P1 - 100 * D"
    unfolding spec_call_def reference_d1_d2 E_def P1_def Q_def D_def by simp
  have "0.985 * 0.49002 \<le> E * Q"
    using E Q by (intro mult_mono) simp_all
  then have lo: "0.4826697 \<le> D" by (simp add: D_def)
  have "E * Q \<le> 0.98512 * 0.49004"
    using E Q by (intro mult_mono) simp_all
  then have hi: "D \<le> 0.4827483" by (simp add: D_def)
  from P1 lo hi show "8.669 < spec_call 100 100 1 0.015 0.2"
    "spec_call 100 100 1 0.015 0.2 < 8.683"
    unfolding c by simp_all
qed

lemma reference_put: "7.175 < spec_put 100 100 1 0.015 0.2" "spec_put 100 100 1 0.015 0.2 < 7.189"
proof -
  define E where "E = exp (- 0.015 :: real)"
  define P1 where "P1 = Phi (- 0.175)"
  define Q where "Q = Phi 0.025"
  have E: "0.985 \<le> E" "E \<le> 0.98512" using reference_discount by (simp_all add: E_def)
  have P1: "0.43051 \<le> P1" "P1 \<le> 0.43056"
    using reference_Phi_d1 by (simp_all add: P1_def Phi_minus)
  have Q: "0.50996 \<le> Q" "Q \<le> 0.50998" using reference_Phi_d2 by (simp_all add: Q_def)
  define D where "D = E * Q"
  have p: "spec_put 100 100 1 0.015 0.2 = 100 * D - 100 * P1"
    unfolding spec_put_def reference_d1_d2 E_def P1_def Q_def D_def by simp
  have "0.985 * 0.50996 \<le> E * Q"
    using E Q by (intro mult_mono) simp_all
  then have lo: "0.5023106 \<le> D" by (simp add: D_def)
  have "E * Q \<le> 0.98512 * 0.50998"
    using E Q by (intro mult_mono) simp_all
  then have hi: "D \<le> 0.5023915" by (simp add: D_def)
  from P1 lo hi show "7.175 < spec_put 100 100 1 0.015 0.2"
    "spec_put 100 100 1 0.015 0.2 < 7.189"
    unfolding p by simp_all
qed

lemma reference_returns:
  "returns (black_scholes (NpFloat (Fin 100)) (NpFloat (Fin 100)) (PyFloat (Fin 1))
      (PyFloat (Fin 0.015)) (PyFloat (Fin 0.2)) ''call'' u) (spec_call 100 100 1 0.015 0.2)"
  "returns (black_scholes (NpFloat (Fin 100)) (NpFloat (Fin 100)) (PyFloat (Fin 1))
      (PyFloat (Fin 0.015)) (PyFloat (Fin 0.2)) ''put'' u) (spec_put 100 100 1 0.015 0.2)"
proof -
  have small: "((0.2 :: real))\<^sup>2 \<le> dbl_max"
    by (simp add: dbl_max_def power2_eq_square)
  from black_scholes_valid(1) [of "NpFloat (Fin 100)" 100 "NpFloat (Fin 100)" 100
      "PyFloat (Fin 1)" 1 "PyFloat (Fin 0.015)" "0.015" "PyFloat (Fin 0.2)" "0.2" "''call''" u,
      OF _ _ _ _ _ _ _ _ _ small]
  show "returns (black_scholes (NpFloat (Fin 100)) (NpFloat (Fin 100)) (PyFloat (Fin 1))
      (PyFloat (Fin 0.015)) (PyFloat (Fin 0.2)) ''call'' u) (spec_call 100 100 1 0.015 0.2)"
    by simp
  from black_scholes_valid(1) [of "NpFloat (Fin 100)" 100 "NpFloat (Fin 100)" 100
      "PyFloat (Fin 1)" 1 "PyFloat (Fin 0.015)" "0.015" "PyFloat (Fin 0.2)" "0.2" "''put''" u,
      OF _ _ _ _ _ _ _ _ _ small]
  show "returns (black_scholes (NpFloat (Fin 100)) (NpFloat (Fin 100)) (PyFloat (Fin 1))
      (PyFloat (Fin 0.015)) (PyFloat (Fin 0.2)) ''put'' u) (spec_put 100 100 1 0.015 0.2)"
    by simp
qed

text \<open>
  C8, as the specification states it, fails: at \<open>S = 100\<close>, \<open>K = 100\<close>, \<open>T = 1\<close>,
  \<open>r = 0.015\<close>, \<open>sigma = 0.20\<close> the call price \<^verbatim>\<open>black_scholes\<close> returns is below \<open>8.70\<close>,
  so it is not within \<open>0.05\<close> of \<open>8.75\<close>; the put price is below \<open>7.19\<close>, not near
  \<open>7.26\<close>.
\<close>

theorem reference_price_not_8_75:
  "returns (black_scholes (NpFloat (Fin 100)) (NpFloat (Fin 100)) (PyFloat (Fin 1))
      (PyFloat (Fin 0.015)) (PyFloat (Fin 0.2)) ''call'' []) (spec_call 100 100 1 0.015 0.2) \<and>
   \<not> \<bar>spec_call 100 100 1 0.015 0.2 - 8.75\<bar> \<le> 0.05 \<and>
   returns (black_scholes (NpFloat (Fin 100)) (NpFloat (Fin 100)) (PyFloat (Fin 1))
      (PyFloat (Fin 0.015)) (PyFloat (Fin 0.2)) ''put'' []) (spec_put 100 100 1 0.015 0.2) \<and>
   \<not> \<bar>spec_put 100 100 1 0.015 0.2 - 7.26\<bar> \<le> 0.05"
proof -
  define c where "c = spec_call 100 100 1 0.015 0.2"
  define p where "p = spec_put 100 100 1 0.015 0.2"
  have c: "c < 8.683" using reference_call(2) by (simp only: c_def)
  have p: "p < 7.189" using reference_put(2) by (simp only: p_def)
  have "\<not> \<bar>c - 8.75\<bar> \<le> 0.05" using c by simp
  moreover have "\<not> \<bar>p - 7.26\<bar> \<le> 0.05" using p by simp
  ultimately show ?thesis
    using reference_returns [of "[]"] unfolding c_def p_def by blast
qed

text \<open>
  C8, amended. At the same input the call price returned is \<open>8.67\<close> and the put price
  \<open>7.18\<close>, each within \<open>0.05\<close>; more precisely the call price lies between \<open>8.669\<close> and
  \<open>8.683\<close> and the put price between \<open>7.175\<close> and \<open>7.189\<close>.
\<close>

theorem reference_price:
  "\<exists>c p. returns (black_scholes (NpFloat (Fin 100)) (NpFloat (Fin 100)) (PyFloat (Fin 1))
             (PyFloat (Fin 0.015)) (PyFloat (Fin 0.2)) ''call'' []) c \<and>
         returns (black_scholes (NpFloat (Fin 100)) (NpFloat (Fin 100)) (PyFloat (Fin 1))
             (PyFloat (Fin 0.015)) (PyFloat (Fin 0.2)) ''put'' []) p \<and>
         \<bar>c - 8.67\<bar> \<le> 0.05 \<and> \<bar>p - 7.18\<bar> \<le> 0.05 \<and>
         8.669 < c \<and> c < 8.683 \<and> 7.175 < p \<and> p < 7.189"
proof -
  define c where "c = spec_call 100 100 1 0.015 0.2"
  define p where "p = spec_put 100 100 1 0.015 0.2"
  have c: "8.669 < c" "c < 8.683" using reference_call by (simp_all only: c_def)
  have p: "7.175 < p" "p < 7.189" using reference_put by (simp_all only: p_def)
  have "c - 8.67 \<le> 0.05" "- (c - 8.67) \<le> 0.05" using c by simp_all
  then have "\<bar>c - 8.67\<bar> \<le> 0.05" by (simp only: abs_le_iff)
  moreover have "p - 7.18 \<le> 0.05" "- (p - 7.18) \<le> 0.05" using p by simp_all
  then have "\<bar>p - 7.18\<bar> \<le> 0.05" by (simp only: abs_le_iff)
  moreover note reference_returns [of "[]", folded c_def p_def] c p
  ultimately show ?thesis by blast
qed

section \<open>Inputs in the range of doubles\<close>

text \<open>
  Sufficient bounds for \<open>in_range\<close>, and the inputs near the reference input at which
  every intermediate result of the formula is in range: the reference input itself, and
  the reference input with the volatility raised to \<open>0.3\<close>, with the spot price raised to
  \<open>105\<close>, and with the strike raised to \<open>105\<close>.
\<close>

lemma in_range_mid:
  assumes "1 / 10 ^ 9 \<le> \<bar>x\<bar>" "\<bar>x\<bar> \<le> 10 ^ 9"
  shows "in_range x"
proof -
  have "dbl_min \<le> 1 / 10 ^ 9" by (simp add: dbl_min_def)
  moreover have "(10 :: real) ^ 9 \<le> dbl_max" by (simp add: dbl_max_def)
  ultimately show ?thesis using assms unfolding in_range_def by linarith
qed

lemma in_range_pos:
  assumes "a \<le> x" "x \<le> b" "1 / 10 ^ 9 \<le> a" "b \<le> 10 ^ 9"
  shows "in_range x"
  using assms by (intro in_range_mid) simp_all

lemma in_range_prod:
  assumes "a \<le> x" "x \<le> b" "c \<le> y" "y \<le> d"
    and "1 / 10 ^ 4 \<le> a" "1 / 10 ^ 4 \<le> c" "b \<le> 10 ^ 4" "d \<le> 10 ^ 4"
  shows "in_range (x * y)"
proof -
  have pos: "0 \<le> a" "0 \<le> c" "0 \<le> x" "0 \<le> y" "0 \<le> b" "0 \<le> d" using assms by simp_all
  have "1 / 10 ^ 4 * (1 / 10 ^ 4) \<le> x * y"
    by (rule mult_mono) (use assms pos in simp_all)
  moreover have "x * y \<le> 10 ^ 4 * 10 ^ 4"
    by (rule mult_mono) (use assms pos in simp_all)
  ultimately show ?thesis by (intro in_range_mid) simp_all
qed

lemma Phi_mono: "a \<le> b \<Longrightarrow> Phi a \<le> Phi b"
  using gauss_int_mono [of a b] by (simp add: Phi_def divide_right_mono)

lemma Phi_lower:
  assumes "\<bar>x\<bar> \<le> 11 / 10"
  shows "1 / 10 \<le> Phi x"
proof -
  define Z where "Z = sqrt (2 * pi)"
  have Z: "2.506 < Z" using sqrt_2pi_bounds(1) by (simp only: Z_def)
  have "gauss_int (11 / 10) \<le> 11 / 10 - (11 / 10) ^ 3 / 6 + (11 / 10) ^ 5 / 40"
    by (rule gauss_int_upper) simp
  also have "\<dots> \<le> 0.92" by (simp add: power_divide)
  finally have g: "gauss_int (11 / 10) \<le> 0.92" .
  define q where "q = gauss_int (11 / 10) / Z"
  have "q \<le> 0.92 / Z"
    unfolding q_def by (rule divide_right_mono [OF g]) (use Z in simp)
  also have "0.92 / Z \<le> 0.4" using Z by (simp add: pos_divide_le_eq)
  finally have q: "q \<le> 0.4" .
  have "Phi (11 / 10) = 1 / 2 + q" by (simp only: Phi_def Z_def q_def)
  with q have "Phi (11 / 10) \<le> 0.9" by simp
  then have "0.1 \<le> Phi (- (11 / 10))" using Phi_minus [of "11 / 10"] by simp
  also have "\<dots> \<le> Phi x" using assms by (intro Phi_mono) simp
  finally show ?thesis by simp
qed

lemma ln_bounds:
  fixes x :: real
  assumes "0 < x"
  shows "1 - 1 / x \<le> ln x" "ln x \<le> x - 1"
proof -
  show "ln x \<le> x - 1" using assms by (rule ln_le_minus_one)
  have "ln (1 / x) \<le> 1 / x - 1" using assms by (intro ln_le_minus_one) simp
  then show "1 - 1 / x \<le> ln x" using assms by (simp add: ln_div)
qed


lemma prod_bounds:
  fixes x y :: real
  assumes "a \<le> x" "x \<le> b" "c \<le> y" "y \<le> d" "0 \<le> a" "0 \<le> c"
  shows "a * c \<le> x * y" "x * y \<le> b * d"
proof -
  show "a * c \<le> x * y" by (rule mult_mono) (use assms in simp_all)
  show "x * y \<le> b * d" by (rule mult_mono) (use assms in simp_all)
qed

lemma in_range_Phi:
  assumes "\<bar>x\<bar> \<le> 11 / 10"
  shows "1 / 10 \<le> Phi x" "Phi x \<le> 1" "in_range (Phi x)"
proof -
  show a: "1 / 10 \<le> Phi x" by (rule Phi_lower [OF assms])
  show b: "Phi x \<le> 1" by (rule Phi_bounds(2))
  show "in_range (Phi x)" by (rule in_range_pos [OF a b]) simp_all
qed

lemma bs_in_range_near:
  fixes s k \<sigma> :: real
  assumes s: "100 \<le> s" "s \<le> 105" and k: "100 \<le> k" "k \<le> 105"
    and sg: "1 / 5 \<le> \<sigma>" "\<sigma> \<le> 3 / 10"
    and L: "ln (s / k) = 0 \<or> 1 / 100 \<le> \<bar>ln (s / k)\<bar>"
    and N: "1 / 100 \<le> \<bar>ln (s / k) + (0.015 + 0.5 * \<sigma>\<^sup>2) * 1\<bar>"
    and D2: "1 / 100 \<le> \<bar>spec_d2 s k 1 0.015 \<sigma>\<bar>"
    and price: "1 \<le> (if option_type = ''call'' then spec_call s k 1 0.015 \<sigma>
                     else spec_put s k 1 0.015 \<sigma>)"
  shows "bs_in_range option_type s k 1 0.015 \<sigma>"
proof -
  let ?d1 = "spec_d1 s k 1 0.015 \<sigma>"
  let ?d2 = "spec_d2 s k 1 0.015 \<sigma>"
  let ?E = "exp (- 0.015 * 1 :: real)"
  define Lv where "Lv = ln (s / k)"
  define Hv where "Hv = 0.5 * \<sigma>\<^sup>2"
  define Av where "Av = 0.015 + Hv"
  define Nv where "Nv = Lv + Av * 1"
  note defs = Nv_def Av_def Hv_def Lv_def
  have pos: "0 < s" "0 < k" "0 < \<sigma>" using s k sg by simp_all
  have i1: "in_range s" by (rule in_range_pos [OF s]) simp_all
  have i2: "in_range k" by (rule in_range_pos [OF k]) simp_all
  have i3: "in_range 1" by (rule in_range_mid) simp_all
  have i4: "in_range 0.015" by (rule in_range_mid) simp_all
  have i5: "in_range \<sigma>" by (rule in_range_pos [OF sg]) simp_all
  have q: "20 / 21 \<le> s / k" "s / k \<le> 21 / 20"
    using s k pos by (simp_all add: pos_le_divide_eq pos_divide_le_eq)
  have q': "k / s \<le> 21 / 20"
    using s k pos by (simp add: pos_divide_le_eq)
  have i6: "in_range (s / k)" by (rule in_range_pos [OF q]) simp_all
  have qpos: "0 < s / k" using pos by simp
  have "Lv \<le> s / k - 1" unfolding Lv_def by (rule ln_bounds(2) [OF qpos])
  with q(2) have Lu: "Lv \<le> 1 / 20" by linarith
  have "1 - 1 / (s / k) \<le> Lv" unfolding Lv_def by (rule ln_bounds(1) [OF qpos])
  moreover have "1 / (s / k) = k / s" by simp
  ultimately have Ll: "- (1 / 20) \<le> Lv" using q' by linarith
  have Labs: "\<bar>Lv\<bar> \<le> 1 / 20" using Lu Ll by linarith
  have i7: "in_range Lv"
  proof (cases "Lv = 0")
    case True
    then show ?thesis by (simp only: in_range_def simp_thms)
  next
    case False
    with L have "1 / 100 \<le> \<bar>Lv\<bar>" by (simp only: Lv_def simp_thms)
    then show ?thesis using Labs by (intro in_range_mid) simp_all
  qed
  have sq: "1 / 25 \<le> \<sigma>\<^sup>2" "\<sigma>\<^sup>2 \<le> 9 / 100"
    using prod_bounds [OF sg sg] by (simp_all add: power2_eq_square)
  have i8: "in_range (\<sigma>\<^sup>2)" by (rule in_range_pos [OF sq]) simp_all
  have h: "1 / 50 \<le> Hv" "Hv \<le> 9 / 200" using sq by (simp_all add: Hv_def)
  have i9: "in_range Hv" by (rule in_range_pos [OF h]) simp_all
  have A: "7 / 200 \<le> Av" "Av \<le> 3 / 50" using h by (simp_all add: Av_def)
  have i10: "in_range Av" by (rule in_range_pos [OF A]) simp_all
  have i11: "in_range (Av * 1)" using i10 by (simp only: mult_1_right)
  have Nabs: "\<bar>Nv\<bar> \<le> 11 / 100" using Labs A unfolding Nv_def by (simp only: mult_1_right)
  have N': "1 / 100 \<le> \<bar>Nv\<bar>" using N by (simp only: defs)
  have i12: "in_range Nv" using N' Nabs by (intro in_range_mid) simp_all
  have i13: "in_range (sqrt 1)" using i3 by simp
  have i14: "in_range (\<sigma> * sqrt 1)" using i5 by simp
  have d1: "?d1 = Nv / \<sigma>" by (simp add: spec_d1_def defs)
  have "\<bar>Nv\<bar> / \<sigma> \<le> 11 / 20"
    using Nabs sg pos by (simp add: pos_divide_le_eq)
  moreover have "1 / 30 \<le> \<bar>Nv\<bar> / \<sigma>"
    using N' sg pos by (simp add: pos_le_divide_eq)
  ultimately have d1abs: "1 / 30 \<le> \<bar>?d1\<bar>" "\<bar>?d1\<bar> \<le> 11 / 20"
    using pos by (simp_all only: d1 abs_divide abs_of_pos)
  have i15: "in_range ?d1" using d1abs by (intro in_range_mid) simp_all
  have d2: "?d2 = ?d1 - \<sigma>" by (simp only: spec_d2_def real_sqrt_one mult_1_right)
  define D1 where "D1 = ?d1"
  have "\<bar>D1 - \<sigma>\<bar> \<le> 17 / 20" using d1abs(2) sg pos unfolding D1_def [symmetric] by linarith
  then have d2abs: "\<bar>?d2\<bar> \<le> 17 / 20" by (simp only: d2 D1_def)
  have i16: "in_range ?d2" using D2 d2abs by (intro in_range_mid) simp_all
  have i17: "in_range (- 0.015 * 1)" by (rule in_range_mid) simp_all
  have E: "197 / 200 \<le> ?E" "?E \<le> 1"
    using reference_discount(1) by simp_all
  have i18: "in_range ?E" by (rule in_range_pos [OF E]) simp_all
  have kE: "98 \<le> k * ?E" "k * ?E \<le> 105"
    using prod_bounds [OF k E] by simp_all
  have i19: "in_range (k * ?E)" by (rule in_range_pos [OF kE]) simp_all
  note i = i1 i2 i3 i4 i5 i6 i7 [unfolded defs] i8 i9 [unfolded defs] i10 [unfolded defs]
    i11 [unfolded defs] i12 [unfolded defs] i13 i14 i15 i16 i17 i18 i19
  have a1: "\<bar>?d1\<bar> \<le> 11 / 10" "\<bar>- ?d1\<bar> \<le> 11 / 10" using d1abs(2) by simp_all
  have a2: "\<bar>?d2\<bar> \<le> 11 / 10" "\<bar>- ?d2\<bar> \<le> 11 / 10" using d2abs by simp_all
  show ?thesis
  proof (cases "option_type = ''call''")
    case True
    note P1 = in_range_Phi [OF a1(1)] and P2 = in_range_Phi [OF a2(1)]
    have c2: "in_range (s * Phi ?d1)"
      by (rule in_range_prod [OF s P1(1) P1(2)]) simp_all
    have c4: "in_range (k * ?E * Phi ?d2)"
      by (rule in_range_prod [OF kE P2(1) P2(2)]) simp_all
    have "0 \<le> k * ?E * Phi ?d2" using prod_bounds(1) [OF kE P2(1) P2(2)] by simp
    moreover have "s * Phi ?d1 \<le> 105 * 1" using prod_bounds(2) [OF s P1(1) P1(2)] by simp
    ultimately have up: "s * Phi ?d1 - k * ?E * Phi ?d2 \<le> 105" by simp
    have lo: "1 \<le> s * Phi ?d1 - k * ?E * Phi ?d2"
      using price True by (simp only: spec_call_def if_True simp_thms)
    have c5: "in_range (s * Phi ?d1 - k * ?E * Phi ?d2)"
      by (rule in_range_pos [OF lo up]) simp_all
    show ?thesis
      unfolding bs_in_range_def bs_intermediates_def Let_def
      by (simp only: True if_True append.simps list.pred_inject
          i
          P1(3) c2 P2(3) c4 c5 simp_thms)
  next
    case False
    note P1 = in_range_Phi [OF a1(2)] and P2 = in_range_Phi [OF a2(2)]
    have c2: "in_range (s * Phi (- ?d1))"
      by (rule in_range_prod [OF s P1(1) P1(2)]) simp_all
    have c4: "in_range (k * ?E * Phi (- ?d2))"
      by (rule in_range_prod [OF kE P2(1) P2(2)]) simp_all
    have "0 \<le> s * Phi (- ?d1)" using prod_bounds(1) [OF s P1(1) P1(2)] by simp
    moreover have "k * ?E * Phi (- ?d2) \<le> 105 * 1"
      using prod_bounds(2) [OF kE P2(1) P2(2)] by simp
    ultimately have up: "k * ?E * Phi (- ?d2) - s * Phi (- ?d1) \<le> 105" by simp
    have lo: "1 \<le> k * ?E * Phi (- ?d2) - s * Phi (- ?d1)"
      using price False by (simp only: spec_put_def if_False simp_thms)
    have c5: "in_range (k * ?E * Phi (- ?d2) - s * Phi (- ?d1))"
      by (rule in_range_pos [OF lo up]) simp_all
    show ?thesis
      unfolding bs_in_range_def bs_intermediates_def Let_def
      by (simp only: False if_False append.simps list.pred_inject
          i
          P2(3) c4 P1(3) c2 c5 simp_thms)
  qed
qed

lemma reference_in_range:
  "bs_in_range ''call'' 100 100 1 0.015 0.2" "bs_in_range ''put'' 100 100 1 0.015 0.2"
proof -
  have L: "ln (100 / 100 :: real) = 0 \<or> 1 / 100 \<le> \<bar>ln (100 / 100 :: real)\<bar>" by simp
  have N: "1 / 100 \<le> \<bar>ln (100 / 100 :: real) + (0.015 + 0.5 * 0.2\<^sup>2) * 1\<bar>"
    by (simp add: power2_eq_square)
  have D2: "1 / 100 \<le> \<bar>spec_d2 100 100 1 0.015 0.2\<bar>"
    unfolding reference_d1_d2 by simp
  have c: "1 \<le> (if ''call'' = ''call'' then spec_call 100 100 1 0.015 0.2
                  else spec_put 100 100 1 0.015 0.2)"
    using reference_call(1) by simp
  have p: "1 \<le> (if ''put'' = ''call'' then spec_call 100 100 1 0.015 0.2
                  else spec_put 100 100 1 0.015 0.2)"
    using reference_put(1) by simp
  show "bs_in_range ''call'' 100 100 1 0.015 0.2"
    by (rule bs_in_range_near [OF _ _ _ _ _ _ L N D2 c]) simp_all
  show "bs_in_range ''put'' 100 100 1 0.015 0.2"
    by (rule bs_in_range_near [OF _ _ _ _ _ _ L N D2 p]) simp_all
qed




text \<open>
  The closed form at the reference input, where \<open>d1 = 0.175\<close> and \<open>d2 = - 0.025\<close>.
\<close>

theorem black_scholes_closed_form_witness:
  "bs_in_range ''call'' 100 100 1 0.015 0.2 \<and> bs_in_range ''put'' 100 100 1 0.015 0.2 \<and>
   returns (black_scholes (NpFloat (Fin 100)) (NpFloat (Fin 100)) (PyFloat (Fin 1))
       (PyFloat (Fin 0.015)) (PyFloat (Fin 0.2)) ''call'' [])
     (100 * Phi 0.175 - 100 * exp (- 0.015) * Phi (- 0.025)) \<and>
   returns (black_scholes (NpFloat (Fin 100)) (NpFloat (Fin 100)) (PyFloat (Fin 1))
       (PyFloat (Fin 0.015)) (PyFloat (Fin 0.2)) ''put'' [])
     (100 * exp (- 0.015) * Phi 0.025 - 100 * Phi (- 0.175))"
  using black_scholes_closed_form [of "NpFloat (Fin 100)" 100 "NpFloat (Fin 100)" 100
      "PyFloat (Fin 1)" 1 "PyFloat (Fin 0.015)" "0.015" "PyFloat (Fin 0.2)" "0.2" "[]",
      OF _ _ _ _ _ _ _ _ _ reference_in_range] reference_in_range
  by (simp add: Let_def power2_eq_square)

text \<open>Parity at the reference input.\<close>

theorem put_call_parity_witness:
  "bs_in_range ''call'' 100 100 1 0.015 0.2 \<and> bs_in_range ''put'' 100 100 1 0.015 0.2 \<and>
   (\<exists>c p. returns (black_scholes (NpFloat (Fin 100)) (NpFloat (Fin 100)) (PyFloat (Fin 1))
                   (PyFloat (Fin 0.015)) (PyFloat (Fin 0.2)) ''call'' []) c \<and>
         returns (black_scholes (NpFloat (Fin 100)) (NpFloat (Fin 100)) (PyFloat (Fin 1))
                   (PyFloat (Fin 0.015)) (PyFloat (Fin 0.2)) ''put'' []) p \<and>
         c - p = 100 - 100 * exp (- 0.015))"
  using put_call_parity [of "NpFloat (Fin 100)" 100 "NpFloat (Fin 100)" 100
      "PyFloat (Fin 1)" 1 "PyFloat (Fin 0.015)" "0.015" "PyFloat (Fin 0.2)" "0.2" "[]",
      OF _ _ _ _ _ _ _ _ _ reference_in_range] reference_in_range
  by simp


end
